theory Spec2Isabelle
  imports Complex_Main "HOL-Library.Word" "HOL-Library.Multiset"
begin

text \<open>
  The pagination service of the card generator (\<open>paginate\<close> with
  \<open>paginateMainContent\<close>, \<open>smartSplitText\<close>, \<open>splitComment\<close> and \<open>paginateComments\<close>, in
  its version 3.0 with the floor midpoint), the comment pipeline of \<open>preprocessPostData\<close>
  that runs before it, and the tokenizer \<open>smartSplit\<close> of the text utilities.

  Asynchronous calls are sequential in the source and are modelled as function calls. A
  rejected promise is the result \<open>None\<close>. Heights are real numbers. Console output is
  left out.
\<close>

section \<open>JavaScript strings\<close>

text \<open>
  A JavaScript string is a sequence of UTF-16 code units; \<open>text[i]\<close>, \<open>length\<close>,
  \<open>split\<close>, \<open>trim\<close> and \<open>join\<close> all work on code units.
\<close>

type_synonym jschar = "16 word"
type_synonym jsstring = "jschar list"

definition LF :: jschar where
  "LF = 0x0A"

text \<open>\<open>String.prototype.trim\<close> strips WhiteSpace and LineTerminator code units.\<close>

definition isWhiteSpace :: "jschar \<Rightarrow> bool" where
  "isWhiteSpace c \<longleftrightarrow>
     c = 0x09 \<or> c = 0x0A \<or> c = 0x0B \<or> c = 0x0C \<or> c = 0x0D \<or> c = 0x20 \<or> c = 0xA0 \<or>
     c = 0x1680 \<or> (0x2000 \<le> c \<and> c \<le> 0x200A) \<or> c = 0x2028 \<or> c = 0x2029 \<or>
     c = 0x202F \<or> c = 0x205F \<or> c = 0x3000 \<or> c = 0xFEFF"

definition trim :: "jsstring \<Rightarrow> jsstring" where
  "trim s = rev (dropWhile isWhiteSpace (rev (dropWhile isWhiteSpace s)))"

text \<open>
  \<open>s.split(sep)\<close> for a one-character separator, or for a regular expression that is a
  character class: the pieces between the separators, \<open>['']\<close> for the empty string.
\<close>

fun split_on :: "(jschar \<Rightarrow> bool) \<Rightarrow> jsstring \<Rightarrow> jsstring list" where
  "split_on P [] = [[]]"
| "split_on P (c # cs) =
     (if P c then [] # split_on P cs
      else (case split_on P cs of [] \<Rightarrow> [[c]] | p # ps \<Rightarrow> (c # p) # ps))"

definition split_nl :: "jsstring \<Rightarrow> jsstring list" where
  "split_nl text = split_on (\<lambda>c. c = LF) text"

text \<open>\<open>parts.join('\n')\<close>\<close>

fun join_nl :: "jsstring list \<Rightarrow> jsstring" where
  "join_nl [] = []"
| "join_nl [p] = p"
| "join_nl (p # q # ps) = p @ LF # join_nl (q # ps)"

text \<open>\<open>x || ''\<close> on an optional string field.\<close>

definition or_empty :: "jsstring option \<Rightarrow> jsstring" where
  "or_empty x = (case x of None \<Rightarrow> [] | Some s \<Rightarrow> s)"

text \<open>\<open>text.split('\n').filter(p => p.trim().length > 0)\<close>\<close>

definition paragraphs :: "jsstring \<Rightarrow> jsstring list" where
  "paragraphs text = filter (\<lambda>p. length (trim p) > 0) (split_nl text)"

section \<open>Posts, comments and pages\<close>

record comment =
  author :: jsstring
  body :: "jsstring option"
  body_zh :: "jsstring option"
  ups :: int
  isContinuation :: "bool option"

record post =
  post_id :: jsstring
  title :: jsstring
  title_zh :: "jsstring option"
  title_polish_zh :: "jsstring option"
  selftext :: "jsstring option"
  selftext_zh :: "jsstring option"
  summary_zh :: "jsstring option"
  subreddit :: jsstring
  created :: int
  post_ups :: int
  name :: jsstring
  commentList :: "comment list option"

datatype page_type = TypeMain | TypeMainContinued | TypeComments

text \<open>
  A page of type \<open>main\<close> or \<open>main_continued\<close>; the page pushed for a post without body
  has no \<open>content_zh\<close> and no \<open>content\<close> field.
\<close>

record main_page =
  mp_title :: jsstring
  mp_title_zh :: "jsstring option"
  mp_ups :: int
  mp_subreddit :: jsstring
  mp_type :: page_type
  content_zh :: "jsstring option"
  content :: "jsstring option"

record comments_page =
  cp_type :: page_type
  comments :: "comment list"
  cp_title :: "jsstring option"

datatype page = MainPage main_page | CommentsPage comments_page

text \<open>\<open>a || b\<close> on optional strings: \<open>undefined\<close> and \<open>''\<close> are falsy.\<close>

definition js_or :: "jsstring option \<Rightarrow> jsstring option \<Rightarrow> jsstring option" where
  "js_or a b = (case a of Some (c # cs) \<Rightarrow> a | _ \<Rightarrow> b)"

definition MAX_HEIGHT_MAIN_CONTENT :: real where
  "MAX_HEIGHT_MAIN_CONTENT = 800"

definition MAX_HEIGHT_COMMENTS :: real where
  "MAX_HEIGHT_COMMENTS = 900"

definition MAX_HEIGHT_SINGLE_COMMENT :: real where
  "MAX_HEIGHT_SINGLE_COMMENT = 870"

section \<open>The measurement collaborator\<close>

text \<open>
  \<open>renderer.renderHTML\<close> followed by \<open>measureContentHeight\<close> is the one external
  capability of the pagination service. It is modelled as an arbitrary function of the
  rendered data and of a state of its own, which it may change at every call; it returns
  a height or throws. The three shapes of rendered data: a main card (selector
  \<open>.main-content\<close>), a comment card given only a comment list, and a comment card given
  the data of a comments page (selector \<open>.comments-section\<close>).
\<close>

datatype outcome = Height real | Throws

datatype render_data =
    MainCard main_page
  | CommentCard "comment list"
  | CommentsPageCard comments_page

type_synonym 's collaborator = "render_data \<Rightarrow> 's \<Rightarrow> outcome \<times> 's"

section \<open>The binary search of paginateMainContent and splitComment\<close>

text \<open>
  The inner \<open>while (low <= high)\<close> loop; \<open>probe mid\<close> renders and measures the first
  \<open>mid\<close> paragraphs of both tracks. The result is \<open>None\<close> when a probe throws.
\<close>

function binarySearch ::
  "(nat \<Rightarrow> 's \<Rightarrow> outcome \<times> 's) \<Rightarrow> real \<Rightarrow> nat \<Rightarrow> nat \<Rightarrow> nat \<Rightarrow> 's \<Rightarrow> nat option \<times> 's" where
  "binarySearch probe limit low high best_fit_size s =
     (if low \<le> high then
        (let mid = (low + high) div 2 in
         if mid = 0 then binarySearch probe limit 1 high best_fit_size s
         else (case probe mid s of
                 (Throws, s') \<Rightarrow> (None, s')
               | (Height height, s') \<Rightarrow>
                   if 0 < height \<and> height \<le> limit
                   then binarySearch probe limit (mid + 1) high mid s'
                   else binarySearch probe limit low (mid - 1) best_fit_size s'))
      else (Some best_fit_size, s))"
  by pat_completeness auto
termination
  by (relation "measure (\<lambda>(probe, limit, low, high, best_fit_size, s). high + 1 - low)") auto

declare binarySearch.simps [simp del]

text \<open>\<open>if (best_fit_size === 0) best_fit_size = 1\<close>\<close>

definition forcedMinimum :: "nat \<Rightarrow> nat" where
  "forcedMinimum best_fit_size = (if best_fit_size = 0 then 1 else best_fit_size)"

section \<open>paginateMainContent\<close>

definition basePageData :: "post \<Rightarrow> main_page" where
  "basePageData p =
     \<lparr>mp_title = title p, mp_title_zh = js_or (title_zh p) (title_polish_zh p),
      mp_ups = post_ups p, mp_subreddit = subreddit p, mp_type = TypeMain,
      content_zh = None, content = None\<rparr>"

definition mainProbe ::
  "'s collaborator \<Rightarrow> main_page \<Rightarrow> jsstring list \<Rightarrow> jsstring list \<Rightarrow> nat \<Rightarrow> 's \<Rightarrow> outcome \<times> 's" where
  "mainProbe M base remaining_zh remaining_en mid =
     M (MainCard (base\<lparr>mp_type := TypeMain,
                       content_zh := Some (join_nl (take mid remaining_zh)),
                       content := Some (join_nl (take mid remaining_en))\<rparr>))"

function mainLoop ::
  "'s collaborator \<Rightarrow> main_page \<Rightarrow> jsstring list \<Rightarrow> jsstring list \<Rightarrow> bool \<Rightarrow> 's
     \<Rightarrow> page list option \<times> 's" where
  "mainLoop M base remaining_zh remaining_en isFirstPage s =
     (if length remaining_zh > 0 \<or> length remaining_en > 0 then
        (case binarySearch (mainProbe M base remaining_zh remaining_en) MAX_HEIGHT_MAIN_CONTENT
                1 (max (length remaining_zh) (length remaining_en)) 0 s of
           (None, s1) \<Rightarrow> (None, s1)
         | (Some b, s1) \<Rightarrow>
             (let best_fit_size = forcedMinimum b;
                  pg = MainPage (base\<lparr>
                         mp_type := (if isFirstPage then TypeMain else TypeMainContinued),
                         content_zh := Some (join_nl (take best_fit_size remaining_zh)),
                         content := Some (join_nl (take best_fit_size remaining_en))\<rparr>)
              in (case mainLoop M base (drop best_fit_size remaining_zh)
                         (drop best_fit_size remaining_en) False s1 of
                    (None, s2) \<Rightarrow> (None, s2)
                  | (Some pages, s2) \<Rightarrow> (Some (pg # pages), s2))))
      else (Some [], s))"
  by pat_completeness auto
termination
  by (relation "measure (\<lambda>(M, base, remaining_zh, remaining_en, isFirstPage, s).
                   length remaining_zh + length remaining_en)")
     (auto simp: forcedMinimum_def simp flip: length_greater_0_conv)

declare mainLoop.simps [simp del]

definition paginateMainContent :: "'s collaborator \<Rightarrow> post \<Rightarrow> 's \<Rightarrow> page list option \<times> 's" where
  "paginateMainContent M p s =
     (let paragraphs_zh = paragraphs (or_empty (selftext_zh p));
          paragraphs_en = paragraphs (or_empty (selftext p))
      in if length paragraphs_zh = 0 \<and> length paragraphs_en = 0
         then (Some [MainPage (basePageData p)], s)
         else mainLoop M (basePageData p) paragraphs_zh paragraphs_en True s)"

section \<open>smartSplitText and splitComment\<close>

definition isSentenceEnd :: "jschar \<Rightarrow> bool" where
  "isSentenceEnd c \<longleftrightarrow>
     c = 0x3002 \<or> c = 0xFF01 \<or> c = 0xFF1F \<or> c = 0x2E \<or> c = 0x21 \<or> c = 0x3F"

text \<open>
  The loop that recombines sentences; \<open>0x3002\<close> is the ideographic full stop appended to
  every sentence. The result is the list of segments pushed to \<open>newSegments\<close>.
\<close>

fun repack :: "jsstring \<Rightarrow> jsstring list \<Rightarrow> jsstring list" where
  "repack currentSegment [] =
     (if length (trim currentSegment) > 0 then [trim currentSegment] else [])"
| "repack currentSegment (sentence # sentences) =
     (let potentialSegment = currentSegment @ sentence @ [0x3002] in
      if length potentialSegment > 150 \<and> length currentSegment > 0
      then trim currentSegment # repack (sentence @ [0x3002]) sentences
      else repack potentialSegment sentences)"

definition resplit :: "jsstring \<Rightarrow> jsstring list" where
  "resplit segment =
     (if length segment > 200 then
        (let sentences = filter (\<lambda>s. length (trim s) > 0) (split_on isSentenceEnd segment) in
         if length sentences > 1 then repack [] sentences else [segment])
      else [segment])"

definition smartSplitText :: "jsstring \<Rightarrow> jsstring list" where
  "smartSplitText text =
     (if text = [] then []
      else (let segments = paragraphs text in
            if length segments \<le> 2 \<and> length text > 500
            then concat (map resplit segments) else segments))"

definition commentProbe ::
  "'s collaborator \<Rightarrow> comment \<Rightarrow> jsstring list \<Rightarrow> jsstring list \<Rightarrow> bool \<Rightarrow> nat \<Rightarrow> 's
     \<Rightarrow> outcome \<times> 's" where
  "commentProbe M c rem_zh rem_en isFirstChunk mid =
     M (CommentCard [c\<lparr>body_zh := Some (join_nl (take mid rem_zh)),
                        body := Some (join_nl (take mid rem_en)),
                        isContinuation := Some (\<not> isFirstChunk)\<rparr>])"

function splitLoop ::
  "'s collaborator \<Rightarrow> comment \<Rightarrow> jsstring list \<Rightarrow> jsstring list \<Rightarrow> bool \<Rightarrow> 's
     \<Rightarrow> comment list option \<times> 's" where
  "splitLoop M c rem_zh rem_en isFirstChunk s =
     (if length rem_zh > 0 \<or> length rem_en > 0 then
        (case binarySearch (commentProbe M c rem_zh rem_en isFirstChunk) MAX_HEIGHT_SINGLE_COMMENT
                1 (max (length rem_zh) (length rem_en)) 0 s of
           (None, s1) \<Rightarrow> (None, s1)
         | (Some b, s1) \<Rightarrow>
             if b = 0 \<and> \<not> (length rem_zh > 0 \<or> length rem_en > 0) then (Some [], s1)
             else
               (let best_fit_size = forcedMinimum b;
                    chunk = c\<lparr>body_zh := Some (join_nl (take best_fit_size rem_zh)),
                              body := Some (join_nl (take best_fit_size rem_en)),
                              isContinuation := Some (\<not> isFirstChunk)\<rparr>
                in (case splitLoop M c (drop best_fit_size rem_zh) (drop best_fit_size rem_en)
                           False s1 of
                      (None, s2) \<Rightarrow> (None, s2)
                    | (Some chunks, s2) \<Rightarrow> (Some (chunk # chunks), s2))))
      else (Some [], s))"
  by pat_completeness auto
termination
  by (relation "measure (\<lambda>(M, c, rem_zh, rem_en, isFirstChunk, s).
                   length rem_zh + length rem_en)")
     (auto simp: forcedMinimum_def simp flip: length_greater_0_conv)

declare splitLoop.simps [simp del]

definition splitComment :: "'s collaborator \<Rightarrow> comment \<Rightarrow> 's \<Rightarrow> comment list option \<times> 's" where
  "splitComment M c s =
     splitLoop M c (smartSplitText (or_empty (body_zh c))) (smartSplitText (or_empty (body c)))
       True s"

section \<open>paginateComments\<close>

text \<open>
  One iteration of the first loop: the comment's contribution to \<open>commentQueue\<close>. The
  \<open>try\<close> block spans the measurement and the call of \<open>splitComment\<close>; the \<open>catch\<close>
  pushes the comment itself.
\<close>

definition processComment :: "'s collaborator \<Rightarrow> comment \<Rightarrow> 's \<Rightarrow> comment list \<times> 's" where
  "processComment M c s =
     (case M (CommentCard [c]) s of
        (Throws, s1) \<Rightarrow> ([c], s1)
      | (Height height, s1) \<Rightarrow>
          if height > MAX_HEIGHT_SINGLE_COMMENT then
            (case splitComment M c s1 of
               (None, s2) \<Rightarrow> ([c], s2)
             | (Some chunks, s2) \<Rightarrow> (chunks, s2))
          else ([c], s1))"

fun buildQueue :: "'s collaborator \<Rightarrow> comment list \<Rightarrow> 's \<Rightarrow> comment list \<times> 's" where
  "buildQueue M [] s = ([], s)"
| "buildQueue M (c # cs) s =
     (case processComment M c s of
        (pushed, s1) \<Rightarrow> (case buildQueue M cs s1 of (queue, s2) \<Rightarrow> (pushed @ queue, s2)))"

text \<open>
  The inner \<open>while\<close> loop of the second step: it returns \<open>pageComments\<close>, what is left
  of \<open>commentQueue\<close>, and the collaborator's state.
\<close>

fun fillPage ::
  "'s collaborator \<Rightarrow> jsstring option \<Rightarrow> comment list \<Rightarrow> comment list \<Rightarrow> 's
     \<Rightarrow> comment list \<times> comment list \<times> 's" where
  "fillPage M ptitle pageComments [] s = (pageComments, [], s)"
| "fillPage M ptitle pageComments (nextComment # queue) s =
     (let newPageComments = pageComments @ [nextComment];
          pageData = \<lparr>cp_type = TypeComments, comments = newPageComments, cp_title = ptitle\<rparr>
      in (case M (CommentsPageCard pageData) s of
            (Throws, s1) \<Rightarrow> (pageComments, nextComment # queue, s1)
          | (Height height, s1) \<Rightarrow>
              if 0 < height \<and> height \<le> MAX_HEIGHT_COMMENTS then
                (if length (pageComments @ [nextComment]) \<ge> 3
                 then (pageComments @ [nextComment], queue, s1)
                 else fillPage M ptitle (pageComments @ [nextComment]) queue s1)
              else (pageComments, nextComment # queue, s1)))"

text \<open>\<open>if (pageComments.length === 0 && commentQueue.length > 0) pageComments.push(commentQueue.shift())\<close>\<close>

fun forceOne :: "comment list \<Rightarrow> comment list \<Rightarrow> comment list \<times> comment list" where
  "forceOne pageComments [] = (pageComments, [])"
| "forceOne pageComments (c # queue) =
     (if length pageComments = 0 then (pageComments @ [c], queue) else (pageComments, c # queue))"

function packPages ::
  "'s collaborator \<Rightarrow> jsstring option \<Rightarrow> comment list \<Rightarrow> 's \<Rightarrow> page list \<times> 's" where
  "packPages M ptitle commentQueue s =
     (if length commentQueue > 0 then
        (case fillPage M ptitle [] commentQueue s of
           (filled, queue1, s1) \<Rightarrow>
             (case forceOne filled queue1 of
                (pageComments, queue2) \<Rightarrow>
                  if length pageComments > 0 then
                    (case packPages M ptitle queue2 s1 of
                       (pages, s2) \<Rightarrow>
                         (CommentsPage \<lparr>cp_type = TypeComments, comments = pageComments,
                                        cp_title = ptitle\<rparr> # pages, s2))
                  else packPages M ptitle queue2 s1))
      else ([], s))"
  by pat_completeness auto
termination
proof (relation "measure (\<lambda>(M, ptitle, commentQueue, s). length commentQueue)")
  have fill: "fillPage M ptitle pc q s = (filled, q1, s1) \<Longrightarrow> filled @ q1 = pc @ q"
    for M :: "'s collaborator" and ptitle pc q s filled q1 s1
    by (induction M ptitle pc q s rule: fillPage.induct)
       (auto split: prod.splits outcome.splits if_splits)
  have force: "forceOne filled q1 = (pc, q2) \<Longrightarrow>
      pc @ q2 = filled @ q1 \<and> (filled @ q1 \<noteq> [] \<longrightarrow> pc \<noteq> [])"
    for filled q1 pc q2
    by (cases q1) (auto split: if_splits)
  show "wf (measure (\<lambda>(M :: 's collaborator, ptitle :: jsstring option, commentQueue :: comment list, s :: 's).
              length commentQueue))"
    by simp
  fix M :: "'s collaborator" and ptitle commentQueue s x filled y queue1 s1 xa pageComments queue2
  assume a: "0 < length commentQueue" "(filled, y) = fillPage M ptitle [] commentQueue s"
     "(queue1, s1) = y" "(pageComments, queue2) = forceOne filled queue1"
  from a(2,3) have "filled @ queue1 = commentQueue" using fill[of M ptitle "[]" commentQueue s filled queue1 s1] by simp
  moreover from a(4) have "pageComments @ queue2 = filled @ queue1 \<and> (filled @ queue1 \<noteq> [] \<longrightarrow> pageComments \<noteq> [])"
    using force[of filled queue1 pageComments queue2] by simp
  ultimately have "length queue2 < length commentQueue"
    using a(1) by (metis append_eq_append_conv length_append length_greater_0_conv less_add_same_cancel2 add.commute)
  then show "((M, ptitle, queue2, s1), M, ptitle, commentQueue, s) \<in> measure (\<lambda>(M, ptitle, commentQueue, s). length commentQueue)"
    "((M, ptitle, queue2, s1), M, ptitle, commentQueue, s) \<in> measure (\<lambda>(M, ptitle, commentQueue, s). length commentQueue)"
    by simp_all
qed

declare packPages.simps [simp del]

text \<open>\<open>post.commentList || []\<close>\<close>

definition or_no_comments :: "comment list option \<Rightarrow> comment list" where
  "or_no_comments x = (case x of None \<Rightarrow> [] | Some cs \<Rightarrow> cs)"

definition paginateComments :: "'s collaborator \<Rightarrow> post \<Rightarrow> 's \<Rightarrow> page list \<times> 's" where
  "paginateComments M p s =
     (let comments = or_no_comments (commentList p) in
      if length comments = 0 then ([], s)
      else (case buildQueue M comments s of
              (commentQueue, s1) \<Rightarrow>
                packPages M (js_or (title_zh p) (Some (title p))) commentQueue s1))"

section \<open>paginate\<close>

definition paginate :: "'s collaborator \<Rightarrow> post \<Rightarrow> 's \<Rightarrow> page list option \<times> 's" where
  "paginate M p s =
     (case paginateMainContent M p s of
        (None, s1) \<Rightarrow> (None, s1)
      | (Some mainPages, s1) \<Rightarrow>
          (case paginateComments M p s1 of
             (commentPages, s2) \<Rightarrow>
               (let pages = mainPages @ commentPages in
                if length pages = 0
                then (Some [MainPage (basePageData p)], s2)
                else (Some pages, s2))))"

section \<open>preprocessPostData\<close>

text \<open>
  \<open>validatePostData\<close> throws when a required field is falsy (an empty string, the
  number 0) or when a comment has no author or no body; the \<open>typeof\<close> checks hold by
  the types of the record fields.
\<close>

definition validatePostData :: "post \<Rightarrow> bool" where
  "validatePostData p \<longleftrightarrow>
     post_id p \<noteq> [] \<and> title p \<noteq> [] \<and> subreddit p \<noteq> [] \<and> created p \<noteq> 0 \<and>
     post_ups p \<noteq> 0 \<and> name p \<noteq> [] \<and>
     (case commentList p of
        None \<Rightarrow> True
      | Some cs \<Rightarrow> list_all (\<lambda>c. author c \<noteq> [] \<and> or_empty (body c) \<noteq> []) cs)"

text \<open>
  The comment pipeline of \<open>preprocessPostData\<close>: \<open>filter\<close>, \<open>map\<close>, and
  \<open>sort((a, b) => b.ups - a.ups)\<close>, a stable sort by descending score
  (\<open>Array.prototype.sort\<close> is stable; \<open>sort_key\<close> is insertion sort, stable as well).
\<close>

definition preprocessComments :: "comment list \<Rightarrow> comment list" where
  "preprocessComments cs =
     sort_key (\<lambda>c. - ups c)
       (map (\<lambda>c. c\<lparr>body := body c, body_zh := Some (or_empty (body_zh c)),
                     author := trim (author c)\<rparr>)
          (filter (\<lambda>c. or_empty (body c) \<noteq> [] \<and> trim (or_empty (body c)) \<noteq> []) cs))"

definition preprocessPostData :: "post \<Rightarrow> post option" where
  "preprocessPostData p =
     (if \<not> validatePostData p then None
      else Some (p\<lparr>title := title p,
                   selftext := Some (or_empty (selftext p)),
                   title_zh := Some (or_empty (title_zh p)),
                   title_polish_zh := Some (or_empty (title_polish_zh p)),
                   selftext_zh := Some (or_empty (selftext_zh p)),
                   summary_zh := Some (or_empty (summary_zh p)),
                   commentList := map_option preprocessComments (commentList p)\<rparr>))"

section \<open>smartSplit\<close>

definition isChinese :: "jschar \<Rightarrow> bool" where
  "isChinese c \<longleftrightarrow> 0x4e00 \<le> c \<and> c \<le> 0x9fff"

definition isEnglish :: "jschar \<Rightarrow> bool" where
  "isEnglish c \<longleftrightarrow> (0x61 \<le> c \<and> c \<le> 0x7A) \<or> (0x41 \<le> c \<and> c \<le> 0x5A)"

text \<open>The class \<open>[,.!?;:]\<close> with its full-width forms and the ideographic comma.\<close>

definition isPunctuation :: "jschar \<Rightarrow> bool" where
  "isPunctuation c \<longleftrightarrow>
     c = 0x2C \<or> c = 0x2E \<or> c = 0x21 \<or> c = 0x3F \<or> c = 0x3B \<or> c = 0x3A \<or>
     c = 0xFF0C \<or> c = 0x3002 \<or> c = 0xFF01 \<or> c = 0xFF1F \<or> c = 0xFF1B \<or> c = 0xFF1A \<or>
     c = 0x3001"

datatype char_type = chinese | english | space | punctuation | other

definition classify :: "jschar \<Rightarrow> char_type" where
  "classify c =
     (if isChinese c then chinese
      else if isEnglish c then english
      else if c = 0x20 then space
      else if isPunctuation c then punctuation
      else other)"

text \<open>\<open>if (current.trim()) result.push(current)\<close>\<close>

definition pushIfNotBlank :: "jsstring list \<Rightarrow> jsstring \<Rightarrow> jsstring list" where
  "pushIfNotBlank result current = (if trim current \<noteq> [] then result @ [current] else result)"

text \<open>
  The body of the \<open>for\<close> loop on the state \<open>(result, current, lastType)\<close>, and the loop
  with the final push.
\<close>

definition smartSplitStep ::
  "jsstring list \<times> jsstring \<times> char_type option \<Rightarrow> jschar
     \<Rightarrow> jsstring list \<times> jsstring \<times> char_type option" where
  "smartSplitStep st char =
     (case st of (result, current, lastType) \<Rightarrow>
        (let currentType = classify char;
             (result1, current1) =
               (if lastType \<noteq> None \<and> lastType \<noteq> Some currentType then
                  (if lastType = Some english \<and> currentType = space
                   then (result, current @ [char])
                   else if lastType = Some space \<and> currentType = english
                   then (result, current @ [char])
                   else if currentType = chinese
                   then (pushIfNotBlank result current, [char])
                   else if lastType = Some chinese
                   then (pushIfNotBlank result current, [char])
                   else (result, current @ [char]))
                else (result, current @ [char]))
         in if currentType = chinese \<and> length current1 > 1
            then (result1 @ [butlast current1], [char], Some currentType)
            else (result1, current1, Some currentType)))"

fun smartSplitLoop ::
  "jsstring \<Rightarrow> jsstring list \<times> jsstring \<times> char_type option \<Rightarrow> jsstring list" where
  "smartSplitLoop [] st = (case st of (result, current, lastType) \<Rightarrow> pushIfNotBlank result current)"
| "smartSplitLoop (char # text) st = smartSplitLoop text (smartSplitStep st char)"

definition smartSplit :: "jsstring \<Rightarrow> jsstring list" where
  "smartSplit text = filter (\<lambda>word. trim word \<noteq> []) (smartSplitLoop text ([], [], None))"

section \<open>Reading the emitted pages\<close>

text \<open>The \<open>comments\<close> list of a page; a main page has none.\<close>

fun commentsOf :: "page \<Rightarrow> comment list" where
  "commentsOf (MainPage mp) = []"
| "commentsOf (CommentsPage cp) = comments cp"

fun isMainPage :: "page \<Rightarrow> bool" where
  "isMainPage (MainPage mp) = True"
| "isMainPage (CommentsPage cp) = False"

text \<open>
  The paragraphs of a content field: split at the line feeds, blank pieces dropped, as
  \<open>paginateMainContent\<close> builds its queues and as the \<open>paragraphs\<close> helper of the renderer
  reads a string. A page without the field has none.
\<close>

definition paragraphsOfContent :: "jsstring option \<Rightarrow> jsstring list" where
  "paragraphsOfContent c = (case c of None \<Rightarrow> [] | Some text \<Rightarrow> paragraphs text)"

text \<open>The pieces of a content field split at the line feeds, nothing dropped.\<close>

definition splitContent :: "jsstring option \<Rightarrow> jsstring list" where
  "splitContent c = (case c of None \<Rightarrow> [] | Some text \<Rightarrow> split_nl text)"

fun contentZhOf :: "page \<Rightarrow> jsstring option" where
  "contentZhOf (MainPage mp) = content_zh mp"
| "contentZhOf (CommentsPage cp) = None"

fun contentOf :: "page \<Rightarrow> jsstring option" where
  "contentOf (MainPage mp) = content mp"
| "contentOf (CommentsPage cp) = None"

text \<open>Paragraphs as the queues hold them: without line feed and not blank.\<close>

definition wellFormedParagraphs :: "jsstring list \<Rightarrow> bool" where
  "wellFormedParagraphs ps \<longleftrightarrow> list_all (\<lambda>p. LF \<notin> set p \<and> trim p \<noteq> []) ps"

text \<open>
  A segment is in order when it holds no wide character or is a single character; the
  invariant of the loop of \<open>smartSplit\<close> on its state.
\<close>

definition wideAlone :: "jsstring \<Rightarrow> bool" where
  "wideAlone seg \<longleftrightarrow> list_ex isChinese seg \<longrightarrow> length seg = 1"

definition splitInvariant :: "jsstring list \<times> jsstring \<times> char_type option \<Rightarrow> bool" where
  "splitInvariant st \<longleftrightarrow>
     (case st of (result, current, lastType) \<Rightarrow>
        list_all wideAlone result \<and>
        (lastType = None \<longrightarrow> current = []) \<and>
        (lastType = Some chinese \<longrightarrow> length current = 1 \<and> list_all isChinese current) \<and>
        (lastType \<noteq> Some chinese \<longrightarrow> \<not> list_ex isChinese current))"

text \<open>What \<open>preprocessPostData\<close> keeps of a comment, and how it rewrites it.\<close>

definition hasBody :: "comment \<Rightarrow> bool" where
  "hasBody c \<longleftrightarrow> or_empty (body c) \<noteq> [] \<and> trim (or_empty (body c)) \<noteq> []"

definition cleaned :: "comment \<Rightarrow> comment" where
  "cleaned c = c\<lparr>body := body c, body_zh := Some (or_empty (body_zh c)), author := trim (author c)\<rparr>"

text \<open>
  \<open>smartSplitText\<close> re-cuts a text into sentences when it has at most two paragraphs and
  more than 500 code units, and one of its paragraphs has more than 200 code units and more
  than one sentence.
\<close>

definition recutsSentences :: "jsstring \<Rightarrow> bool" where
  "recutsSentences text \<longleftrightarrow>
     length (paragraphs text) \<le> 2 \<and> length text > 500 \<and>
     list_ex (\<lambda>segment. length segment > 200 \<and>
                length (filter (\<lambda>s. length (trim s) > 0) (split_on isSentenceEnd segment)) > 1)
       (paragraphs text)"

section \<open>Example inputs\<close>

text \<open>A collaborator without state whose probe at \<open>k\<close> measures \<open>m k\<close>.\<close>

definition pureProbe :: "(nat \<Rightarrow> real) \<Rightarrow> nat \<Rightarrow> unit \<Rightarrow> outcome \<times> unit" where
  "pureProbe m k s = (Height (m k), s)"

text \<open>Heights 400, 850, 1300 for one, two and three paragraphs.\<close>

definition workedHeights :: "nat \<Rightarrow> real" where
  "workedHeights k = 450 * real k - 50"

text \<open>A measurement that reports 0 (element not found) below three paragraphs.\<close>

definition faultyHeights :: "nat \<Rightarrow> real" where
  "faultyHeights k = (if k < 3 then 0 else 500)"

text \<open>Comments told apart by their score, with a one-letter body.\<close>

definition sampleComment :: "int \<Rightarrow> comment" where
  "sampleComment n =
     \<lparr>author = [0x75], body = Some [0x62], body_zh = None, ups = n, isContinuation = None\<rparr>"

text \<open>
  A collaborator without state: 400 per comment of a comments page, 100 for a single
  comment card, 1000 for every main card.
\<close>

fun steadyMeter :: "unit collaborator" where
  "steadyMeter (MainCard mp) s = (Height 1000, s)"
| "steadyMeter (CommentCard cs) s = (Height 100, s)"
| "steadyMeter (CommentsPageCard cp) s = (Height (400 * real (length (comments cp))), s)"

text \<open>
  A collaborator that counts its calls and throws at the first and then at every third
  one.
\<close>

definition flakyMeter :: "nat collaborator" where
  "flakyMeter d n = (if n mod 3 = 0 then (Throws, Suc n) else (Height 300, Suc n))"

definition samplePost :: post where
  "samplePost =
     \<lparr>post_id = [0x31], title = [0x54], title_zh = None, title_polish_zh = None,
      selftext = Some [0x61, 0x0A, 0x62], selftext_zh = Some [0x63], summary_zh = None,
      subreddit = [0x72], created = 1, post_ups = 5, name = [0x6E],
      commentList = Some [sampleComment 4, sampleComment 3, sampleComment 2, sampleComment 1]\<rparr>"

text \<open>A comment whose body has an empty line between its two paragraphs.\<close>

definition gappedComment :: comment where
  "gappedComment =
     \<lparr>author = [0x75], body = Some [0x61, 0x0A, 0x0A, 0x62], body_zh = None, ups = 7,
      isContinuation = None\<rparr>"

text \<open>A collaborator without state that measures 1000 whatever it renders.\<close>

definition tallMeter :: "unit collaborator" where
  "tallMeter d s = (Height 1000, s)"

text \<open>A post without body, with two comments.\<close>

definition titleOnlyPost :: post where
  "titleOnlyPost =
     \<lparr>post_id = [0x32], title = [0x54], title_zh = None, title_polish_zh = None,
      selftext = Some [], selftext_zh = None, summary_zh = None,
      subreddit = [0x72], created = 1, post_ups = 5, name = [0x6E],
      commentList = Some [sampleComment 2, sampleComment 1]\<rparr>"

text \<open>The text \<open>hi yo\<close>, two ideographs, \<open>!a\<close>.\<close>

definition mixedText :: jsstring where
  "mixedText = [0x68, 0x69, 0x20, 0x79, 0x6F, 0x4e2d, 0x6587, 0x21, 0x61]"

text \<open>The sample post with thirteen comments, in ascending order of score.\<close>

definition crowdedPost :: post where
  "crowdedPost = samplePost\<lparr>commentList :=
     Some (map sampleComment [1, 2, 3, 4, 5, 6, 7, 8, 9, 10, 11, 12, 13])\<rparr>"

text \<open>
  A collaborator without state: 500 per paragraph of the bodies of a comment card, 400 per
  comment of a comments page, 100 for every main card.
\<close>

fun paragraphMeter :: "unit collaborator" where
  "paragraphMeter (MainCard mp) s = (Height 100, s)"
| "paragraphMeter (CommentCard cs) s =
     (Height (500 * real (length (concat (map (\<lambda>c. paragraphs (or_empty (body c))) cs)))), s)"
| "paragraphMeter (CommentsPageCard cp) s = (Height (400 * real (length (comments cp))), s)"

text \<open>The sample post with the gapped comment and one short comment.\<close>

definition splitPost :: post where
  "splitPost = samplePost\<lparr>commentList := Some [sampleComment 3, gappedComment]\<rparr>"

section \<open>The binary search finds a fitting chunk\<close>

lemma binarySearch_inv:
  "(\<And>k s. fst (probe k s) = Height (m k)) \<Longrightarrow>
   (\<And>i j. 1 \<le> i \<Longrightarrow> i \<le> j \<Longrightarrow> j \<le> n \<Longrightarrow> 0 < m j \<and> m j \<le> limit \<Longrightarrow> 0 < m i \<and> m i \<le> limit) \<Longrightarrow>
   1 \<le> low \<Longrightarrow> high \<le> n \<Longrightarrow> best = low - 1 \<Longrightarrow> low \<le> high + 1
     \<Longrightarrow> (\<forall>k. 1 \<le> k \<and> k < low \<longrightarrow> 0 < m k \<and> m k \<le> limit)
     \<Longrightarrow> (\<forall>k. high < k \<and> k \<le> n \<longrightarrow> \<not> (0 < m k \<and> m k \<le> limit))
     \<Longrightarrow> \<exists>r s'. binarySearch probe limit low high best s = (Some r, s') \<and> r \<le> n \<and>
            (\<forall>k. 1 \<le> k \<and> k \<le> r \<longrightarrow> 0 < m k \<and> m k \<le> limit) \<and>
            (\<forall>k. r < k \<and> k \<le> n \<longrightarrow> \<not> (0 < m k \<and> m k \<le> limit))"
proof (induction probe limit low high best s rule: binarySearch.induct)
  case (1 probe limit low high best s)
  note pure = "1.prems"(1) and down = "1.prems"(2)
  let ?fits = "\<lambda>k. 0 < m k \<and> m k \<le> limit"
  show ?case
  proof (cases "low \<le> high")
    case False
    with "1.prems" have "low = high + 1" by simp
    with False "1.prems"(3-) show ?thesis
      by (subst binarySearch.simps) auto
  next
    case True
    define mid where "mid = (low + high) div 2"
    have mid: "low \<le> mid" "mid \<le> high" "mid \<noteq> 0"
      using True "1.prems"(3) by (auto simp: mid_def)
    obtain s' where pr: "probe mid s = (Height (m mid), s')"
      using pure[of mid s] by (cases "probe mid s") auto
    show ?thesis
    proof (cases "?fits mid")
      case fit: True
      have "\<exists>r s''. binarySearch probe limit (mid + 1) high mid s' = (Some r, s'') \<and> r \<le> n \<and>
            (\<forall>k. 1 \<le> k \<and> k \<le> r \<longrightarrow> ?fits k) \<and> (\<forall>k. r < k \<and> k \<le> n \<longrightarrow> \<not> ?fits k)"
      proof (rule "1.IH"(2)[OF True mid_def mid(3) pr[symmetric] refl])
        show "0 < m mid \<and> m mid \<le> limit" by (rule fit)
        show "\<And>k s. fst (probe k s) = Height (m k)" by (rule pure)
        show "\<And>i j. 1 \<le> i \<Longrightarrow> i \<le> j \<Longrightarrow> j \<le> n \<Longrightarrow> ?fits j \<Longrightarrow> ?fits i"
          by (rule down)
        show "1 \<le> mid + 1" by simp
        show "high \<le> n" using "1.prems" by simp
        show "mid = mid + 1 - 1" by simp
        show "mid + 1 \<le> high + 1" using mid by simp
        show "\<forall>k. 1 \<le> k \<and> k < mid + 1 \<longrightarrow> ?fits k"
        proof (intro allI impI)
          fix k assume "1 \<le> k \<and> k < mid + 1"
          then show "?fits k" using down[of k mid] fit mid "1.prems"(4) by simp
        qed
        show "\<forall>k. high < k \<and> k \<le> n \<longrightarrow> \<not> ?fits k" using "1.prems" by simp
      qed
      then show ?thesis
        using True mid pr fit
        by (subst binarySearch.simps) (auto simp: mid_def[symmetric])
    next
      case nofit: False
      have "\<exists>r s''. binarySearch probe limit low (mid - 1) best s' = (Some r, s'') \<and> r \<le> n \<and>
            (\<forall>k. 1 \<le> k \<and> k \<le> r \<longrightarrow> ?fits k) \<and> (\<forall>k. r < k \<and> k \<le> n \<longrightarrow> \<not> ?fits k)"
      proof (rule "1.IH"(3)[OF True mid_def mid(3) pr[symmetric] refl])
        show "\<not> (0 < m mid \<and> m mid \<le> limit)" by (rule nofit)
        show "\<And>k s. fst (probe k s) = Height (m k)" by (rule pure)
        show "\<And>i j. 1 \<le> i \<Longrightarrow> i \<le> j \<Longrightarrow> j \<le> n \<Longrightarrow> ?fits j \<Longrightarrow> ?fits i"
          by (rule down)
        show "1 \<le> low" using "1.prems" by simp
        show "mid - 1 \<le> n" using mid "1.prems" by simp
        show "best = low - 1" using "1.prems" by simp
        show "low \<le> mid - 1 + 1" using mid by simp
        show "\<forall>k. 1 \<le> k \<and> k < low \<longrightarrow> ?fits k" using "1.prems" by simp
        show "\<forall>k. mid - 1 < k \<and> k \<le> n \<longrightarrow> \<not> ?fits k"
        proof (intro allI impI)
          fix k assume k: "mid - 1 < k \<and> k \<le> n"
          then have "mid \<le> k" by linarith
          then show "\<not> ?fits k"
            using down[of mid k] nofit k mid by auto
        qed
      qed
      then show ?thesis
        using True mid pr nofit
        by (subst binarySearch.simps) (auto simp: mid_def[symmetric])
    qed
  qed
qed

lemma binarySearch_returns:
  "(\<And>k s. fst (probe k s) \<noteq> Throws) \<Longrightarrow>
   \<exists>r s'. binarySearch probe limit low high best s = (Some r, s')"
proof (induction probe limit low high best s rule: binarySearch.induct)
  case (1 probe limit low high best s)
  show ?case
  proof (cases "low \<le> high")
    case False
    then show ?thesis by (subst binarySearch.simps) simp
  next
    case True
    define mid where "mid = (low + high) div 2"
    show ?thesis
    proof (cases "mid = 0")
      case True
      with \<open>low \<le> high\<close> "1.IH"(1)[OF \<open>low \<le> high\<close> mid_def True] "1.prems" show ?thesis
        by (subst binarySearch.simps) (simp add: mid_def[symmetric])
    next
      case False
      obtain h s1 where pr: "probe mid s = (Height h, s1)"
        using "1.prems"[of mid s] by (cases "probe mid s"; cases "fst (probe mid s)") auto
      show ?thesis
      proof (cases "0 < h \<and> h \<le> limit")
        case fit: True
        from "1.IH"(2)[OF True mid_def False pr[symmetric] refl fit] "1.prems"
        show ?thesis using True False pr fit
          by (subst binarySearch.simps) (simp add: mid_def[symmetric])
      next
        case nofit: False
        from "1.IH"(3)[OF True mid_def False pr[symmetric] refl nofit] "1.prems"
        show ?thesis using True False pr nofit
          by (subst binarySearch.simps) (auto simp: mid_def[symmetric])
      qed
    qed
  qed
qed

lemma binarySearch_no_fit:
  "(\<And>k s h. fst (probe k s) = Height h \<Longrightarrow> \<not> (0 < h \<and> h \<le> limit)) \<Longrightarrow>
   binarySearch probe limit low high best s = (Some r, s') \<Longrightarrow> r = best"
proof (induction probe limit low high best s rule: binarySearch.induct)
  case (1 probe limit low high best s)
  show ?case
  proof (cases "low \<le> high")
    case False
    with "1.prems"(2) show ?thesis by (subst (asm) binarySearch.simps) simp
  next
    case True
    define mid where "mid = (low + high) div 2"
    show ?thesis
    proof (cases "mid = 0")
      case True
      with \<open>low \<le> high\<close> "1.prems"(2)
      have "binarySearch probe limit 1 high best s = (Some r, s')"
        by (subst (asm) binarySearch.simps) (simp add: mid_def[symmetric])
      from "1.IH"(1)[OF \<open>low \<le> high\<close> mid_def True _ this] "1.prems"(1)
      show ?thesis by blast
    next
      case False
      from "1.prems"(2) True False obtain h s1 where pr: "probe mid s = (Height h, s1)"
        by (subst (asm) binarySearch.simps)
           (auto simp: mid_def[symmetric] split: prod.splits outcome.splits)
      have nofit: "\<not> (0 < h \<and> h \<le> limit)" using "1.prems"(1)[of mid s h] pr by simp
      with "1.prems"(2) True False pr
      have "binarySearch probe limit low (mid - 1) best s1 = (Some r, s')"
        by (subst (asm) binarySearch.simps) (auto simp: mid_def[symmetric])
      from "1.IH"(3)[OF True mid_def False pr[symmetric] refl nofit _ this] "1.prems"(1)
      show ?thesis by blast
    qed
  qed
qed

lemma binarySearch_best_fits:
  "(\<And>k s. fst (probe k s) = Height (m k)) \<Longrightarrow>
   best = 0 \<or> (1 \<le> best \<and> best \<le> n \<and> 0 < m best \<and> m best \<le> limit) \<Longrightarrow> high \<le> n \<Longrightarrow>
   binarySearch probe limit low high best s = (Some r, s') \<Longrightarrow>
   r = 0 \<or> (1 \<le> r \<and> r \<le> n \<and> 0 < m r \<and> m r \<le> limit)"
proof (induction probe limit low high best s rule: binarySearch.induct)
  case (1 probe limit low high best s)
  note pure = "1.prems"(1)
  show ?case
  proof (cases "low \<le> high")
    case False
    with "1.prems"(4) have "r = best" by (subst (asm) binarySearch.simps) simp
    with "1.prems"(2) show ?thesis by simp
  next
    case True
    define mid where "mid = (low + high) div 2"
    show ?thesis
    proof (cases "mid = 0")
      case True
      with \<open>low \<le> high\<close> "1.prems"(4)
      have "binarySearch probe limit 1 high best s = (Some r, s')"
        by (subst (asm) binarySearch.simps) (simp add: mid_def[symmetric])
      from "1.IH"(1)[OF \<open>low \<le> high\<close> mid_def True _ "1.prems"(2,3) this] pure
      show ?thesis by blast
    next
      case False
      have midn: "1 \<le> mid" "mid \<le> n" using False True "1.prems"(3) by (auto simp: mid_def)
      obtain s1 where pr: "probe mid s = (Height (m mid), s1)"
        using pure[of mid s] by (cases "probe mid s") auto
      show ?thesis
      proof (cases "0 < m mid \<and> m mid \<le> limit")
        case fit: True
        with "1.prems"(4) True False pr
        have run: "binarySearch probe limit (mid + 1) high mid s1 = (Some r, s')"
          by (subst (asm) binarySearch.simps) (simp add: mid_def[symmetric])
        have b: "mid = 0 \<or> (1 \<le> mid \<and> mid \<le> n \<and> 0 < m mid \<and> m mid \<le> limit)"
          using fit midn by simp
        from "1.IH"(2)[OF True mid_def False pr[symmetric] refl fit _ b "1.prems"(3) run] pure
        show ?thesis by blast
      next
        case nofit: False
        with "1.prems"(4) True False pr
        have run: "binarySearch probe limit low (mid - 1) best s1 = (Some r, s')"
          by (subst (asm) binarySearch.simps) (auto simp: mid_def[symmetric])
        have h: "mid - 1 \<le> n" using midn by simp
        from "1.IH"(3)[OF True mid_def False pr[symmetric] refl nofit _ "1.prems"(2) h run] pure
        show ?thesis by blast
      qed
    qed
  qed
qed

text \<open>
  Claim C1, amended. Let the measurement be a function \<open>m\<close> of the chunk size,
  monotonically non-decreasing on \<open>[1, n]\<close>. Then the search returns, and the chunk size
  \<open>k\<close> taken by the caller (the best fit, forced to 1 when there is none) satisfies
  \<open>m k \<le> limit\<close> whenever some \<open>k'\<close> in \<open>[1, n]\<close> does; it satisfies
  \<open>0 < m k \<le> limit\<close> whenever some \<open>k'\<close> in \<open>[1, n]\<close> does and \<open>m\<close> is positive at 1
  (the measurement does not report the fault value 0); when no \<open>k'\<close> in \<open>[1, n]\<close>
  satisfies \<open>0 < m k' \<le> limit\<close>, \<open>k = 1\<close>.
\<close>

theorem binarySearch_chunk_valid:
  assumes pure: "\<forall>k s. fst (probe k s) = Height (m k)"
    and mono: "\<forall>i j. 1 \<le> i \<and> i \<le> j \<and> j \<le> n \<longrightarrow> m i \<le> m j"
  shows "\<exists>r s'. binarySearch probe limit 1 n 0 s = (Some r, s') \<and>
           ((\<exists>k'. 1 \<le> k' \<and> k' \<le> n \<and> m k' \<le> limit) \<longrightarrow> m (forcedMinimum r) \<le> limit) \<and>
           (0 < m 1 \<and> (\<exists>k'. 1 \<le> k' \<and> k' \<le> n \<and> 0 < m k' \<and> m k' \<le> limit) \<longrightarrow>
              1 \<le> forcedMinimum r \<and> forcedMinimum r \<le> n \<and>
              0 < m (forcedMinimum r) \<and> m (forcedMinimum r) \<le> limit) \<and>
           (\<not> (\<exists>k'. 1 \<le> k' \<and> k' \<le> n \<and> 0 < m k' \<and> m k' \<le> limit) \<longrightarrow> forcedMinimum r = 1)"
proof -
  let ?fits = "\<lambda>k. 0 < m k \<and> m k \<le> limit"
  have p: "\<And>k s. fst (probe k s) = Height (m k)" using pure by simp
  obtain r s' where run: "binarySearch probe limit 1 n 0 s = (Some r, s')"
    using binarySearch_returns[of probe limit 1 n 0 s] p by fastforce
  have best: "r = 0 \<or> (1 \<le> r \<and> r \<le> n \<and> ?fits r)"
    by (rule binarySearch_best_fits[OF p _ _ run]) simp_all
  have part1: "m (forcedMinimum r) \<le> limit" if "1 \<le> k'" "k' \<le> n" "m k' \<le> limit" for k'
  proof (cases "r = 0")
    case True
    have "m 1 \<le> m k'" using mono that by simp
    with True that show ?thesis by (simp add: forcedMinimum_def)
  next
    case False
    with best show ?thesis by (simp add: forcedMinimum_def)
  qed
  have inv: "\<exists>r' s''. binarySearch probe limit 1 n 0 s = (Some r', s'') \<and> r' \<le> n \<and>
            (\<forall>k. 1 \<le> k \<and> k \<le> r' \<longrightarrow> ?fits k) \<and> (\<forall>k. r' < k \<and> k \<le> n \<longrightarrow> \<not> ?fits k)"
    if down: "\<And>i j. 1 \<le> i \<Longrightarrow> i \<le> j \<Longrightarrow> j \<le> n \<Longrightarrow> ?fits j \<Longrightarrow> ?fits i"
  proof (rule binarySearch_inv[where m = m and n = n])
    show "\<And>k s. fst (probe k s) = Height (m k)" by (rule p)
    show "\<And>i j. 1 \<le> i \<Longrightarrow> i \<le> j \<Longrightarrow> j \<le> n \<Longrightarrow> ?fits j \<Longrightarrow> ?fits i"
      by (rule down)
  qed auto
  have part2: "1 \<le> forcedMinimum r \<and> forcedMinimum r \<le> n \<and> ?fits (forcedMinimum r)"
    if pos: "0 < m 1" and ex: "\<exists>k'. 1 \<le> k' \<and> k' \<le> n \<and> ?fits k'"
  proof -
    have down: "?fits i" if "1 \<le> i" "i \<le> j" "j \<le> n" "?fits j" for i j
    proof -
      have "m 1 \<le> m i" using mono that by (meson le_trans order_refl)
      moreover have "m i \<le> m j" using mono that by blast
      ultimately show ?thesis using pos that(4) by linarith
    qed
    from inv[OF down] run have above: "\<forall>k. r < k \<and> k \<le> n \<longrightarrow> \<not> ?fits k" by auto
    from ex obtain k' where k': "1 \<le> k'" "k' \<le> n" "?fits k'" by blast
    with above have "k' \<le> r" by (meson not_le_imp_less)
    with k' have "r \<noteq> 0" by simp
    with best show ?thesis by (simp add: forcedMinimum_def)
  qed
  have part3: "forcedMinimum r = 1" if none: "\<not> (\<exists>k'. 1 \<le> k' \<and> k' \<le> n \<and> ?fits k')"
  proof -
    from best none have "r = 0" by blast
    then show ?thesis by (simp add: forcedMinimum_def)
  qed
  from run part1 part2 part3 show ?thesis by blast
qed

theorem binarySearch_chunk_valid_witness:
  "workedHeights 1 \<le> workedHeights 2 \<and> workedHeights 2 \<le> workedHeights 3 \<and>
   0 < workedHeights 1 \<and>
   (\<exists>r s'. binarySearch (pureProbe workedHeights) 800 1 3 0 () = (Some r, s') \<and>
      0 < workedHeights (forcedMinimum r) \<and> workedHeights (forcedMinimum r) \<le> 800)"
proof -
  have h1: "\<forall>k s. fst (pureProbe workedHeights k s) = Height (workedHeights k)"
    by (simp add: pureProbe_def)
  have h2: "\<forall>i j. 1 \<le> i \<and> i \<le> j \<and> j \<le> 3 \<longrightarrow> workedHeights i \<le> workedHeights j"
    by (simp add: workedHeights_def)
  have h3: "0 < workedHeights 1"
    by (simp add: workedHeights_def)
  have ex: "\<exists>k'. 1 \<le> k' \<and> k' \<le> 3 \<and> 0 < workedHeights k' \<and> workedHeights k' \<le> 800"
    by (rule exI[of _ 1]) (simp add: workedHeights_def)
  have mono: "workedHeights 1 \<le> workedHeights 2 \<and> workedHeights 2 \<le> workedHeights 3"
    by (simp add: workedHeights_def)
  from binarySearch_chunk_valid[OF h1 h2, of 800 "()"] ex h3 mono
  show ?thesis by auto
qed

text \<open>
  Claim C1 as stated fails: a non-decreasing measurement that is 0 for one and two
  paragraphs and 500 for three has a fitting size (3) under the limit 800, and the
  search over \<open>[1, 3]\<close> finds no fit; the forced chunk size 1 has measure 0.
\<close>

theorem binarySearch_chunk_valid_counterexample:
  "faultyHeights 1 \<le> faultyHeights 2 \<and> faultyHeights 2 \<le> faultyHeights 3 \<and>
   0 < faultyHeights 3 \<and> faultyHeights 3 \<le> 800 \<and>
   binarySearch (pureProbe faultyHeights) 800 1 3 0 () = (Some 0, ()) \<and>
   forcedMinimum 0 = 1 \<and> \<not> 0 < faultyHeights (forcedMinimum 0)"
  by (simp add: binarySearch.simps pureProbe_def faultyHeights_def forcedMinimum_def)

section \<open>The page packer\<close>

lemma fillPage_append:
  "fillPage M ptitle pc q s = (filled, q1, s1) \<Longrightarrow> filled @ q1 = pc @ q"
  by (induction M ptitle pc q s rule: fillPage.induct)
     (auto split: prod.splits outcome.splits if_splits)

lemma fillPage_length:
  "fillPage M ptitle pc q s = (filled, q1, s1) \<Longrightarrow> length pc < 3 \<Longrightarrow> length filled \<le> 3"
  by (induction M ptitle pc q s rule: fillPage.induct)
     (auto split: prod.splits outcome.splits if_splits)

lemma forceOne_append:
  "forceOne filled q1 = (pc, q2) \<Longrightarrow> pc @ q2 = filled @ q1"
  by (cases q1) (auto split: if_splits)

lemma forceOne_nonempty:
  "forceOne filled q1 = (pc, q2) \<Longrightarrow> filled @ q1 \<noteq> [] \<Longrightarrow> pc \<noteq> []"
  by (cases q1) (auto split: if_splits)

lemma forceOne_length:
  "forceOne filled q1 = (pc, q2) \<Longrightarrow> length filled \<le> 3 \<Longrightarrow> length pc \<le> 3"
  by (cases q1) (auto split: if_splits)

lemma packPages_Nil: "packPages M ptitle [] s = ([], s)"
  by (subst packPages.simps) simp

lemma packPages_step:
  assumes "q \<noteq> []" and f: "fillPage M ptitle [] q s = (filled, q1, s1)"
    and g: "forceOne filled q1 = (pc, q2)"
  shows "packPages M ptitle q s =
       (CommentsPage \<lparr>cp_type = TypeComments, comments = pc, cp_title = ptitle\<rparr>
          # fst (packPages M ptitle q2 s1), snd (packPages M ptitle q2 s1))"
proof -
  have "pc \<noteq> []" using forceOne_nonempty[OF g] fillPage_append[OF f] assms(1) by auto
  then show ?thesis
    using assms by (subst packPages.simps) (simp split: prod.splits)
qed

lemma packPages_concat:
  "concat (map commentsOf (fst (packPages M ptitle q s))) = q"
proof (induction M ptitle q s rule: packPages.induct)
  case (1 M ptitle q s)
  show ?case
  proof (cases "q = []")
    case True
    then show ?thesis by (simp add: packPages_Nil)
  next
    case False
    obtain filled q1 s1 where f: "fillPage M ptitle [] q s = (filled, q1, s1)"
      by (cases "fillPage M ptitle [] q s") auto
    obtain pc q2 where g: "forceOne filled q1 = (pc, q2)"
      by (cases "forceOne filled q1") auto
    have app: "pc @ q2 = q" using fillPage_append[OF f] forceOne_append[OF g] by simp
    have ne: "pc \<noteq> []" using forceOne_nonempty[OF g] fillPage_append[OF f] False by auto
    have IH: "concat (map commentsOf (fst (packPages M ptitle q2 s1))) = q2"
      using "1.IH"(1)[OF _ f[symmetric] refl g[symmetric]] ne False by simp
    show ?thesis
      using IH app by (simp add: packPages_step[OF False f g])
  qed
qed

lemma packPages_cap:
  "CommentsPage cp \<in> set (fst (packPages M ptitle q s)) \<Longrightarrow> length (comments cp) \<le> 3"
proof (induction M ptitle q s rule: packPages.induct)
  case (1 M ptitle q s)
  show ?case
  proof (cases "length q > 0")
    case False
    with "1.prems" show ?thesis by (subst (asm) packPages.simps) simp
  next
    case True
    obtain filled q1 s1 where f: "fillPage M ptitle [] q s = (filled, q1, s1)"
      by (cases "fillPage M ptitle [] q s") auto
    obtain pc q2 where g: "forceOne filled q1 = (pc, q2)"
      by (cases "forceOne filled q1") auto
    have ne: "pc \<noteq> []" using forceOne_nonempty[OF g] fillPage_append[OF f] True by auto
    have len: "length pc \<le> 3" using forceOne_length[OF g] fillPage_length[OF f] by simp
    have IH: "CommentsPage cp \<in> set (fst (packPages M ptitle q2 s1)) \<Longrightarrow> length (comments cp) \<le> 3"
      using "1.IH"(1)[OF True f[symmetric] refl g[symmetric]] ne by simp
    have "packPages M ptitle q s =
       (CommentsPage \<lparr>cp_type = TypeComments, comments = pc, cp_title = ptitle\<rparr>
          # fst (packPages M ptitle q2 s1), snd (packPages M ptitle q2 s1))"
      using True f g ne by (subst packPages.simps) (simp split: prod.splits)
    with "1.prems" IH len show ?thesis by auto
  qed
qed


lemma mainLoop_pages_main:
  "mainLoop M base zh en isFirst s = (Some pages, s') \<Longrightarrow> list_all isMainPage pages"
proof (induction M base zh en isFirst s arbitrary: pages s' rule: mainLoop.induct)
  case (1 M base zh en isFirst s)
  from "1.prems" show ?case
    apply (subst (asm) mainLoop.simps)
    apply (auto split: if_splits prod.splits option.splits simp: Let_def)
    using "1.IH" apply (auto simp: Let_def)
    done
qed

lemma paginateMainContent_pages_main:
  "paginateMainContent M p s = (Some pages, s') \<Longrightarrow> list_all isMainPage pages"
  by (auto simp: paginateMainContent_def Let_def split: if_splits dest: mainLoop_pages_main)

lemma paginateComments_cap:
  "CommentsPage cp \<in> set (fst (paginateComments M p s)) \<Longrightarrow> length (comments cp) \<le> 3"
  by (auto simp: paginateComments_def Let_def split: if_splits prod.splits dest: packPages_cap)

lemma paginate_pages:
  assumes "paginate M p s = (Some pages, s')"
  shows "\<exists>mainPages s1. paginateMainContent M p s = (Some mainPages, s1) \<and>
           s' = snd (paginateComments M p s1) \<and>
           (pages = mainPages @ fst (paginateComments M p s1) \<or>
            pages = [MainPage (basePageData p)] \<and> mainPages = [] \<and>
              fst (paginateComments M p s1) = [])"
  using assms
  by (auto simp: paginate_def Let_def split: prod.splits option.splits if_splits)

text \<open>
  Claim C4. Whatever the collaborator answers, every comments page in the result of
  \<open>paginate\<close> carries at most 3 comments or chunks.
\<close>

theorem comments_page_count_cap:
  "paginate M p s = (Some pages, s') \<Longrightarrow> CommentsPage cp \<in> set pages
     \<Longrightarrow> length (comments cp) \<le> 3"
proof -
  assume run: "paginate M p s = (Some pages, s')" and mem: "CommentsPage cp \<in> set pages"
  from paginate_pages[OF run] obtain mainPages s1 where
    m: "paginateMainContent M p s = (Some mainPages, s1)" and
    pg: "pages = mainPages @ fst (paginateComments M p s1) \<or> pages = [MainPage (basePageData p)]"
    by blast
  have "list_all isMainPage mainPages" by (rule paginateMainContent_pages_main[OF m])
  then have "CommentsPage cp \<notin> set mainPages" by (auto simp: list_all_iff)
  with pg mem have "CommentsPage cp \<in> set (fst (paginateComments M p s1))" by auto
  then show ?thesis by (rule paginateComments_cap)
qed


theorem comments_page_count_cap_witness:
  "paginate steadyMeter samplePost () =
     (Some [MainPage \<lparr>mp_title = [0x54], mp_title_zh = None, mp_ups = 5, mp_subreddit = [0x72],
                       mp_type = TypeMain, content_zh = Some [0x63], content = Some [0x61]\<rparr>,
            MainPage \<lparr>mp_title = [0x54], mp_title_zh = None, mp_ups = 5, mp_subreddit = [0x72],
                       mp_type = TypeMainContinued, content_zh = Some [], content = Some [0x62]\<rparr>,
            CommentsPage \<lparr>cp_type = TypeComments,
                           comments = [sampleComment 4, sampleComment 3], cp_title = Some [0x54]\<rparr>,
            CommentsPage \<lparr>cp_type = TypeComments,
                           comments = [sampleComment 2, sampleComment 1], cp_title = Some [0x54]\<rparr>], ()) \<and>
   length (comments \<lparr>cp_type = TypeComments,
                      comments = [sampleComment 4, sampleComment 3], cp_title = Some [0x54]\<rparr>) \<le> 3"
proof -
  let ?cp = "\<lparr>cp_type = TypeComments, comments = [sampleComment 4, sampleComment 3],
               cp_title = Some [0x54]\<rparr>"
  have run: "paginate steadyMeter samplePost () =
     (Some [MainPage \<lparr>mp_title = [0x54], mp_title_zh = None, mp_ups = 5, mp_subreddit = [0x72],
                       mp_type = TypeMain, content_zh = Some [0x63], content = Some [0x61]\<rparr>,
            MainPage \<lparr>mp_title = [0x54], mp_title_zh = None, mp_ups = 5, mp_subreddit = [0x72],
                       mp_type = TypeMainContinued, content_zh = Some [], content = Some [0x62]\<rparr>,
            CommentsPage ?cp,
            CommentsPage \<lparr>cp_type = TypeComments,
                           comments = [sampleComment 2, sampleComment 1], cp_title = Some [0x54]\<rparr>], ())"
    by code_simp
  have "length (comments ?cp) \<le> 3"
    by (rule comments_page_count_cap[OF run]) simp
  with run show ?thesis by simp
qed

lemma packPages_pages_comments:
  "list_all (\<lambda>pg. \<not> isMainPage pg) (fst (packPages M ptitle q s))"
proof (induction M ptitle q s rule: packPages.induct)
  case (1 M ptitle q s)
  show ?case
  proof (cases "q = []")
    case True
    then show ?thesis by (simp add: packPages_Nil)
  next
    case False
    obtain filled q1 s1 where f: "fillPage M ptitle [] q s = (filled, q1, s1)"
      by (cases "fillPage M ptitle [] q s") auto
    obtain pc q2 where g: "forceOne filled q1 = (pc, q2)"
      by (cases "forceOne filled q1") auto
    have ne: "pc \<noteq> []" using forceOne_nonempty[OF g] fillPage_append[OF f] False by auto
    have "list_all (\<lambda>pg. \<not> isMainPage pg) (fst (packPages M ptitle q2 s1))"
      using "1.IH"(1)[OF _ f[symmetric] refl g[symmetric]] ne False by simp
    then show ?thesis
      by (simp add: packPages_step[OF False f g])
  qed
qed

text \<open>
  Claim C10. Whatever the collaborator answers, the comments lists of the pages emitted by
  the packer, concatenated in emission order, are the input queue; every emitted page is a
  comments page.
\<close>

theorem packer_keeps_queue:
  "concat (map commentsOf (fst (packPages M ptitle commentQueue s))) = commentQueue \<and>
   list_all (\<lambda>pg. \<not> isMainPage pg) (fst (packPages M ptitle commentQueue s))"
  by (simp add: packPages_concat packPages_pages_comments)

theorem packer_keeps_queue_witness:
  "concat (map commentsOf (fst (packPages flakyMeter None
      [sampleComment 4, sampleComment 3, sampleComment 2, sampleComment 1] 0))) =
     [sampleComment 4, sampleComment 3, sampleComment 2, sampleComment 1] \<and>
   map commentsOf (fst (packPages flakyMeter None
      [sampleComment 4, sampleComment 3, sampleComment 2, sampleComment 1] 0)) =
     [[sampleComment 4], [sampleComment 3, sampleComment 2], [sampleComment 1]]"
proof -
  have "map commentsOf (fst (packPages flakyMeter None
      [sampleComment 4, sampleComment 3, sampleComment 2, sampleComment 1] 0)) =
     [[sampleComment 4], [sampleComment 3, sampleComment 2], [sampleComment 1]]"
    by code_simp
  with packer_keeps_queue[of flakyMeter None
      "[sampleComment 4, sampleComment 3, sampleComment 2, sampleComment 1]" 0]
  show ?thesis by simp
qed

section \<open>Paragraphs survive join and split\<close>

lemma split_on_not_Nil: "split_on P s \<noteq> []"
  by (induction s) (auto split: list.splits)

lemma split_on_no_sep: "\<forall>c\<in>set p. \<not> P c \<Longrightarrow> split_on P p = [p]"
  by (induction p) auto

lemma split_on_append_sep:
  "\<forall>x\<in>set p. \<not> P x \<Longrightarrow> P c \<Longrightarrow> split_on P (p @ c # rest) = p # split_on P rest"
  by (induction p) auto

lemma split_on_pieces_all: "\<forall>p\<in>set (split_on P s). \<forall>c\<in>set p. \<not> P c"
  by (induction s) (auto split: list.splits)

lemma split_on_pieces: "p \<in> set (split_on P s) \<Longrightarrow> c \<in> set p \<Longrightarrow> \<not> P c"
  using split_on_pieces_all by blast

lemma split_nl_join:
  "ps \<noteq> [] \<Longrightarrow> \<forall>p\<in>set ps. LF \<notin> set p \<Longrightarrow> split_nl (join_nl ps) = ps"
proof (induction ps rule: join_nl.induct)
  case 1
  then show ?case by simp
next
  case (2 p)
  then have "\<forall>c\<in>set p. \<not> c = LF" by auto
  then show ?case by (simp add: split_nl_def split_on_no_sep del: ball_simps)
next
  case (3 p q ps)
  then have "split_nl (join_nl (q # ps)) = q # ps" by simp
  moreover have "\<forall>x\<in>set p. \<not> x = LF" using 3 by auto
  ultimately show ?case
    using split_on_append_sep[of p "\<lambda>c. c = LF" LF "join_nl (q # ps)"]
    by (simp add: split_nl_def)
qed

lemma trim_Nil [simp]: "trim [] = []"
  by (simp add: trim_def)

lemma paragraphs_join:
  assumes "wellFormedParagraphs ps"
  shows "paragraphs (join_nl ps) = ps"
proof (cases "ps = []")
  case True
  then show ?thesis by (simp add: paragraphs_def split_nl_def)
next
  case False
  have "split_nl (join_nl ps) = ps"
    using assms False by (intro split_nl_join) (auto simp: wellFormedParagraphs_def list_all_iff)
  moreover have "filter (\<lambda>p. length (trim p) > 0) ps = ps"
    using assms by (auto simp: wellFormedParagraphs_def list_all_iff)
  ultimately show ?thesis by (simp add: paragraphs_def)
qed

lemma paragraphs_wellFormed: "wellFormedParagraphs (paragraphs text)"
  by (auto simp: wellFormedParagraphs_def list_all_iff paragraphs_def split_nl_def
           dest: split_on_pieces)

lemma wellFormed_take: "wellFormedParagraphs ps \<Longrightarrow> wellFormedParagraphs (take n ps)"
  by (auto simp: wellFormedParagraphs_def list_all_iff dest: in_set_takeD)

lemma wellFormed_drop: "wellFormedParagraphs ps \<Longrightarrow> wellFormedParagraphs (drop n ps)"
  by (auto simp: wellFormedParagraphs_def list_all_iff dest: in_set_dropD)

lemma mainLoop_reconstruct:
  "mainLoop M base zh en isFirst s = (Some pages, s') \<Longrightarrow>
   wellFormedParagraphs zh \<Longrightarrow> wellFormedParagraphs en \<Longrightarrow>
   concat (map (\<lambda>pg. paragraphsOfContent (contentZhOf pg)) pages) = zh \<and>
   concat (map (\<lambda>pg. paragraphsOfContent (contentOf pg)) pages) = en"
proof (induction M base zh en isFirst s arbitrary: pages s' rule: mainLoop.induct)
  case (1 M base zh en isFirst s)
  show ?case
  proof (cases "length zh > 0 \<or> length en > 0")
    case False
    with "1.prems"(1) show ?thesis by (subst (asm) mainLoop.simps) auto
  next
    case True
    from "1.prems"(1) True obtain b s1 rest s2 where
      bs: "binarySearch (mainProbe M base zh en) MAX_HEIGHT_MAIN_CONTENT 1
             (max (length zh) (length en)) 0 s = (Some b, s1)" and
      rec: "mainLoop M base (drop (forcedMinimum b) zh) (drop (forcedMinimum b) en) False s1
              = (Some rest, s2)" and
      pages: "pages = MainPage (base\<lparr>
                         mp_type := (if isFirst then TypeMain else TypeMainContinued),
                         content_zh := Some (join_nl (take (forcedMinimum b) zh)),
                         content := Some (join_nl (take (forcedMinimum b) en))\<rparr>) # rest"
      by (subst (asm) mainLoop.simps)
         (auto split: prod.splits option.splits simp: Let_def)
    have IH: "concat (map (\<lambda>pg. paragraphsOfContent (contentZhOf pg)) rest) = drop (forcedMinimum b) zh \<and>
          concat (map (\<lambda>pg. paragraphsOfContent (contentOf pg)) rest) = drop (forcedMinimum b) en"
      using "1.IH"[OF True bs[symmetric] refl refl refl rec] "1.prems"(2,3)
      by (simp add: wellFormed_drop)
    show ?thesis
      using IH "1.prems"(2,3)
      by (simp add: pages paragraphsOfContent_def paragraphs_join wellFormed_take)
  qed
qed

lemma paginateMainContent_reconstruct:
  assumes "paginateMainContent M p s = (Some pages, s')"
  shows "concat (map (paragraphsOfContent \<circ> contentZhOf) pages) = paragraphs (or_empty (selftext_zh p)) \<and>
         concat (map (paragraphsOfContent \<circ> contentOf) pages) = paragraphs (or_empty (selftext p))"
proof (cases "length (paragraphs (or_empty (selftext_zh p))) = 0 \<and>
              length (paragraphs (or_empty (selftext p))) = 0")
  case True
  with assms show ?thesis
    by (auto simp: paginateMainContent_def Let_def basePageData_def paragraphsOfContent_def)
next
  case False
  with assms have "mainLoop M (basePageData p) (paragraphs (or_empty (selftext_zh p)))
      (paragraphs (or_empty (selftext p))) True s = (Some pages, s')"
    by (auto simp: paginateMainContent_def Let_def)
  from mainLoop_reconstruct[OF this paragraphs_wellFormed paragraphs_wellFormed]
  show ?thesis by (simp add: comp_def)
qed

lemma comment_pages_no_content:
  "list_all (\<lambda>pg. \<not> isMainPage pg) pages \<Longrightarrow>
   concat (map (paragraphsOfContent \<circ> contentZhOf) pages) = [] \<and>
   concat (map (paragraphsOfContent \<circ> contentOf) pages) = []"
proof (induction pages)
  case Nil
  then show ?case by simp
next
  case (Cons pg pages)
  then show ?case by (cases pg) (auto simp: paragraphsOfContent_def)
qed

lemma paginateComments_pages_comments:
  "list_all (\<lambda>pg. \<not> isMainPage pg) (fst (paginateComments M p s))"
  by (auto simp: paginateComments_def Let_def packPages_pages_comments split: prod.splits)

text \<open>
  Claim C2, amended. For every post and every collaborator, reading the paragraphs of the
  content of each page that \<open>paginate\<close> emits (split at the line feeds, blank pieces
  dropped, so that an empty content holds no paragraph) and concatenating them in emission
  order yields exactly the paragraph list of the body, for each language track.
\<close>

theorem main_pages_keep_paragraphs:
  assumes "paginate M p s = (Some pages, s')"
  shows "concat (map (paragraphsOfContent \<circ> contentZhOf) pages) = paragraphs (or_empty (selftext_zh p)) \<and>
         concat (map (paragraphsOfContent \<circ> contentOf) pages) = paragraphs (or_empty (selftext p))"
proof -
  from paginate_pages[OF assms] obtain mainPages s1 where
    m: "paginateMainContent M p s = (Some mainPages, s1)" and
    pg: "pages = mainPages @ fst (paginateComments M p s1) \<or>
         pages = [MainPage (basePageData p)] \<and> mainPages = [] \<and> fst (paginateComments M p s1) = []"
    by blast
  note main = paginateMainContent_reconstruct[OF m]
  note com = comment_pages_no_content[OF paginateComments_pages_comments[of M p s1]]
  from pg show ?thesis
  proof
    assume "pages = mainPages @ fst (paginateComments M p s1)"
    with main com show ?thesis by simp
  next
    assume "pages = [MainPage (basePageData p)] \<and> mainPages = [] \<and> fst (paginateComments M p s1) = []"
    with main show ?thesis by (simp add: basePageData_def paragraphsOfContent_def)
  qed
qed

theorem main_pages_keep_paragraphs_witness:
  "fst (paginate steadyMeter samplePost ()) \<noteq> None \<and>
   concat (map (paragraphsOfContent \<circ> contentZhOf) (the (fst (paginate steadyMeter samplePost ())))) = [[0x63]] \<and>
   concat (map (paragraphsOfContent \<circ> contentOf) (the (fst (paginate steadyMeter samplePost ())))) = [[0x61], [0x62]]"
proof -
  have "fst (paginate steadyMeter samplePost ()) \<noteq> None" by code_simp
  then obtain pages s' where run: "paginate steadyMeter samplePost () = (Some pages, s')"
    by (cases "paginate steadyMeter samplePost ()") auto
  have zh: "paragraphs (or_empty (selftext_zh samplePost)) = [[0x63]]" by code_simp
  have en: "paragraphs (or_empty (selftext samplePost)) = [[0x61], [0x62]]" by code_simp
  from main_pages_keep_paragraphs[OF run] run zh en show ?thesis by simp
qed

text \<open>
  Claim C2 as stated fails when the two tracks differ in length: the second page of the
  sample post has the empty string as \<open>content_zh\<close>, and splitting it at the line feed
  yields one empty piece, which is no paragraph of the body.
\<close>

theorem main_pages_keep_paragraphs_counterexample:
  "concat (map (splitContent \<circ> contentZhOf) (the (fst (paginate steadyMeter samplePost ())))) = [[0x63], []] \<and>
   paragraphs (or_empty (selftext_zh samplePost)) = [[0x63]]"
  by code_simp

section \<open>The segments of a split comment\<close>

lemma dropWhile_keeps: "x \<in> set xs \<Longrightarrow> \<not> P x \<Longrightarrow> x \<in> set (dropWhile P xs)"
  by (induction xs) auto

lemma trim_keeps: "x \<in> set s \<Longrightarrow> \<not> isWhiteSpace x \<Longrightarrow> x \<in> set (trim s)"
  by (simp add: trim_def dropWhile_keeps)

lemma set_trim_subset: "set (trim s) \<subseteq> set s"
proof -
  have "set (dropWhile isWhiteSpace (rev (dropWhile isWhiteSpace s))) \<subseteq> set (rev (dropWhile isWhiteSpace s))"
    by (rule set_dropWhileD[THEN subsetI]) 
  also have "\<dots> \<subseteq> set s" by (auto dest: set_dropWhileD)
  finally show ?thesis by (simp add: trim_def)
qed

lemma trim_not_Nil: "x \<in> set s \<Longrightarrow> \<not> isWhiteSpace x \<Longrightarrow> trim s \<noteq> []"
  using trim_keeps by fastforce

lemma trim_not_Nil_D: "trim s \<noteq> [] \<Longrightarrow> \<exists>x\<in>set s. \<not> isWhiteSpace x"
proof (rule ccontr)
  assume a: "trim s \<noteq> []" and "\<not> (\<exists>x\<in>set s. \<not> isWhiteSpace x)"
  then have "\<forall>x\<in>set s. isWhiteSpace x" by simp
  then have "dropWhile isWhiteSpace s = []" by (induction s) auto
  then have "trim s = []" by (simp add: trim_def del: dropWhile_eq_Nil_conv)
  with a show False by simp
qed

lemma trim_trim_not_Nil: "trim s \<noteq> [] \<Longrightarrow> trim (trim s) \<noteq> []"
  using trim_not_Nil_D trim_keeps trim_not_Nil by meson

lemma fullstop_not_space: "\<not> isWhiteSpace 0x3002"
  by (simp add: isWhiteSpace_def)

lemma fullstop_not_LF: "(0x3002 :: jschar) \<noteq> LF"
  by (simp add: LF_def)

lemma repack_wellFormed:
  "currentSegment = [] \<or> (\<exists>x\<in>set currentSegment. \<not> isWhiteSpace x) \<Longrightarrow>
   LF \<notin> set currentSegment \<Longrightarrow> \<forall>s\<in>set sentences. LF \<notin> set s \<Longrightarrow>
   wellFormedParagraphs (repack currentSegment sentences)"
proof (induction currentSegment sentences rule: repack.induct)
  case (1 currentSegment)
  then show ?case
    using set_trim_subset[of currentSegment] trim_trim_not_Nil[of currentSegment]
    by (auto simp: wellFormedParagraphs_def)
next
  case (2 currentSegment sentence sentences)
  let ?pot = "currentSegment @ sentence @ [0x3002]"
  show ?case
  proof (cases "length ?pot > 150 \<and> length currentSegment > 0")
    case True
    have rest: "wellFormedParagraphs (repack (sentence @ [0x3002]) sentences)"
      using "2.IH"(1)[OF refl True] "2.prems" fullstop_not_space fullstop_not_LF by auto
    have "trim currentSegment \<noteq> []"
      using True "2.prems"(1) trim_not_Nil by auto
    then have "LF \<notin> set (trim currentSegment) \<and> trim (trim currentSegment) \<noteq> []"
      using set_trim_subset[of currentSegment] "2.prems"(2) trim_trim_not_Nil by auto
    with rest True show ?thesis by (simp add: wellFormedParagraphs_def Let_def)
  next
    case False
    have "wellFormedParagraphs (repack ?pot sentences)"
      using "2.IH"(2)[OF refl False] "2.prems" fullstop_not_space fullstop_not_LF by auto
    with False show ?thesis by (auto simp: Let_def)
  qed
qed

lemma split_on_pieces_subset: "\<forall>p\<in>set (split_on P s). set p \<subseteq> set s"
  by (induction s) (auto split: list.splits)

lemma resplit_wellFormed:
  assumes "LF \<notin> set segment" "trim segment \<noteq> []"
  shows "wellFormedParagraphs (resplit segment)"
proof -
  have "\<forall>s\<in>set (filter (\<lambda>s. length (trim s) > 0) (split_on isSentenceEnd segment)). LF \<notin> set s"
    using split_on_pieces_subset[of isSentenceEnd segment] assms(1) by auto
  then have "wellFormedParagraphs (repack [] (filter (\<lambda>s. length (trim s) > 0) (split_on isSentenceEnd segment)))"
    by (intro repack_wellFormed) auto
  then show ?thesis
    using assms by (auto simp: resplit_def Let_def wellFormedParagraphs_def)
qed

lemma smartSplitText_wellFormed: "wellFormedParagraphs (smartSplitText text)"
proof -
  have "wellFormedParagraphs (concat (map resplit (paragraphs text)))"
    using paragraphs_wellFormed[of "text"] resplit_wellFormed
    by (auto simp: wellFormedParagraphs_def list_all_iff)
  then show ?thesis
    using paragraphs_wellFormed[of "text"]
    by (auto simp: smartSplitText_def Let_def wellFormedParagraphs_def)
qed

lemma splitLoop_reconstruct:
  "splitLoop M c zh en isFirst s = (Some chunks, s') \<Longrightarrow>
   wellFormedParagraphs zh \<Longrightarrow> wellFormedParagraphs en \<Longrightarrow>
   concat (map (\<lambda>ch. paragraphs (or_empty (body_zh ch))) chunks) = zh \<and>
   concat (map (\<lambda>ch. paragraphs (or_empty (body ch))) chunks) = en"
proof (induction M c zh en isFirst s arbitrary: chunks s' rule: splitLoop.induct)
  case (1 M c zh en isFirst s)
  show ?case
  proof (cases "length zh > 0 \<or> length en > 0")
    case False
    with "1.prems"(1) show ?thesis by (subst (asm) splitLoop.simps) auto
  next
    case True
    from "1.prems"(1) True obtain b s1 rest s2 where
      bs: "binarySearch (commentProbe M c zh en isFirst) MAX_HEIGHT_SINGLE_COMMENT 1
             (max (length zh) (length en)) 0 s = (Some b, s1)" and
      rec: "splitLoop M c (drop (forcedMinimum b) zh) (drop (forcedMinimum b) en) False s1
              = (Some rest, s2)" and
      chunks: "chunks = c\<lparr>body_zh := Some (join_nl (take (forcedMinimum b) zh)),
                          body := Some (join_nl (take (forcedMinimum b) en)),
                          isContinuation := Some (\<not> isFirst)\<rparr> # rest"
      by (subst (asm) splitLoop.simps)
         (auto split: prod.splits option.splits if_splits simp: Let_def)
    have nb: "\<not> (b = 0 \<and> \<not> (length zh > 0 \<or> length en > 0))" using True by simp
    have IH: "concat (map (\<lambda>ch. paragraphs (or_empty (body_zh ch))) rest) = drop (forcedMinimum b) zh \<and>
          concat (map (\<lambda>ch. paragraphs (or_empty (body ch))) rest) = drop (forcedMinimum b) en"
      using "1.IH"[OF True bs[symmetric] refl nb refl refl rec] "1.prems"(2,3)
      by (simp add: wellFormed_drop)
    show ?thesis
      using IH "1.prems"(2,3)
      by (simp add: chunks or_empty_def paragraphs_join wellFormed_take)
  qed
qed

lemma split_on_append:
  "P c \<Longrightarrow> split_on P (a @ c # b) = split_on P a @ split_on P b"
proof (induction a)
  case Nil
  then show ?case by simp
next
  case (Cons x a)
  then show ?case
    using split_on_not_Nil[of P a]
    by (cases "split_on P a") auto
qed

lemma split_nl_join_concat:
  "xs \<noteq> [] \<Longrightarrow> split_nl (join_nl xs) = concat (map split_nl xs)"
proof (induction xs rule: join_nl.induct)
  case 1
  then show ?case by simp
next
  case (2 p)
  then show ?case by simp
next
  case (3 p q ps)
  then have "split_nl (join_nl (q # ps)) = concat (map split_nl (q # ps))" by simp
  then show ?case
    using split_on_append[of "\<lambda>c. c = LF" LF p "join_nl (q # ps)"]
    by (simp add: split_nl_def[abs_def])
qed

lemma paragraphs_join_concat:
  "paragraphs (join_nl xs) = concat (map paragraphs xs)"
proof (cases "xs = []")
  case True
  then show ?thesis by (simp add: paragraphs_def split_nl_def)
next
  case False
  then show ?thesis
    by (simp add: paragraphs_def[abs_def] split_nl_join_concat filter_concat comp_def)
qed

lemma concat_singletons: "\<forall>x\<in>set xs. f x = [x] \<Longrightarrow> concat (map f xs) = xs"
  by (induction xs) auto

lemma smartSplitText_not_recut:
  assumes "\<not> recutsSentences text"
  shows "smartSplitText text = paragraphs text"
proof (cases "text = []")
  case True
  then show ?thesis by (simp add: smartSplitText_def paragraphs_def split_nl_def)
next
  case False
  show ?thesis
  proof (cases "length (paragraphs text) \<le> 2 \<and> length text > 500")
    case branch: True
    with assms have "\<forall>segment\<in>set (paragraphs text). \<not> (length segment > 200 \<and>
                length (filter (\<lambda>s. length (trim s) > 0) (split_on isSentenceEnd segment)) > 1)"
      by (auto simp: recutsSentences_def list_ex_iff)
    then have "\<forall>segment\<in>set (paragraphs text). resplit segment = [segment]"
      by (auto simp: resplit_def Let_def)
    then have "concat (map resplit (paragraphs text)) = paragraphs text"
      by (rule concat_singletons)
    with False branch show ?thesis by (simp add: smartSplitText_def Let_def)
  next
    case False
    with \<open>text \<noteq> []\<close> show ?thesis by (auto simp: smartSplitText_def Let_def)
  qed
qed

text \<open>
  Claim C6, amended. For every comment that \<open>splitComment\<close> splits and each language
  track that \<open>smartSplitText\<close> does not re-cut into sentences, the bodies of the chunks,
  joined in emission order by the line feed, give back the body of the comment up to blank
  lines: the joined string and the body have the same paragraphs (the pieces between the
  line feeds that are not blank), in the same order. Nothing is said of a track that is
  re-cut.
\<close>

theorem chunks_keep_body:
  assumes "splitComment M c s = (Some chunks, s')"
  shows "(\<not> recutsSentences (or_empty (body_zh c)) \<longrightarrow>
            paragraphs (join_nl (map (or_empty \<circ> body_zh) chunks)) = paragraphs (or_empty (body_zh c))) \<and>
         (\<not> recutsSentences (or_empty (body c)) \<longrightarrow>
            paragraphs (join_nl (map (or_empty \<circ> body) chunks)) = paragraphs (or_empty (body c)))"
  using splitLoop_reconstruct[OF assms[unfolded splitComment_def]
          smartSplitText_wellFormed smartSplitText_wellFormed]
  by (simp add: paragraphs_join_concat comp_def smartSplitText_not_recut)

theorem chunks_keep_body_witness:
  "map body (the (fst (splitComment tallMeter gappedComment ()))) = [Some [0x61], Some [0x62]] \<and>
   join_nl (map (or_empty \<circ> body) (the (fst (splitComment tallMeter gappedComment ()))))
     = [0x61, 0x0A, 0x62] \<and>
   paragraphs (join_nl (map (or_empty \<circ> body) (the (fst (splitComment tallMeter gappedComment ())))))
     = paragraphs (or_empty (body gappedComment)) \<and>
   paragraphs (or_empty (body gappedComment)) = [[0x61], [0x62]]"
proof -
  have "fst (splitComment tallMeter gappedComment ()) \<noteq> None" by code_simp
  then obtain chunks s' where run: "splitComment tallMeter gappedComment () = (Some chunks, s')"
    by (cases "splitComment tallMeter gappedComment ()") auto
  have bodies: "map body (the (fst (splitComment tallMeter gappedComment ()))) = [Some [0x61], Some [0x62]]"
    by code_simp
  have joined: "join_nl (map (or_empty \<circ> body) (the (fst (splitComment tallMeter gappedComment ()))))
     = [0x61, 0x0A, 0x62]"
    by code_simp
  have pars: "paragraphs (or_empty (body gappedComment)) = [[0x61], [0x62]]"
    by code_simp
  have nr: "\<not> recutsSentences (or_empty (body gappedComment))" by code_simp
  from chunks_keep_body[OF run] nr
  have "paragraphs (join_nl (map (or_empty \<circ> body) chunks)) = paragraphs (or_empty (body gappedComment))"
    by blast
  with run bodies joined pars show ?thesis by simp
qed

text \<open>
  Claim C6 as stated fails: joining the chunk bodies with the line feed does not give back
  a body that has an empty line; the chunk of the sample comment reads \<open>a\<close>, line feed,
  \<open>b\<close>, the body has two line feeds.
\<close>

theorem chunks_keep_body_counterexample:
  "join_nl (map (or_empty \<circ> body) (the (fst (splitComment steadyMeter gappedComment ())))) =
     [0x61, 0x0A, 0x62] \<and>
   or_empty (body gappedComment) = [0x61, 0x0A, 0x0A, 0x62]"
  by code_simp

section \<open>Posts without body\<close>

text \<open>
  Claim C5, amended. If both tracks of the body have no paragraph, \<open>paginateMainContent\<close>
  emits exactly one page, of type \<open>main\<close>, with the title, score and subreddit fields and
  no content; the result of \<open>paginate\<close> is that page followed by the comments pages, so
  that the combined result is not empty and the default page of \<open>paginate\<close> is not added.
\<close>

theorem empty_body_title_page:
  assumes "paragraphs (or_empty (selftext_zh p)) = []" and "paragraphs (or_empty (selftext p)) = []"
  shows "paginateMainContent M p s = (Some [MainPage (basePageData p)], s) \<and>
         mp_type (basePageData p) = TypeMain \<and>
         content_zh (basePageData p) = None \<and> content (basePageData p) = None \<and>
         paginate M p s = (Some (MainPage (basePageData p) # fst (paginateComments M p s)),
                           snd (paginateComments M p s)) \<and>
         list_all (\<lambda>pg. \<not> isMainPage pg) (fst (paginateComments M p s))"
  using assms
  by (simp add: paginateMainContent_def paginate_def basePageData_def Let_def
        paginateComments_pages_comments split: prod.splits)

theorem empty_body_title_page_witness:
  "paragraphs (or_empty (selftext_zh titleOnlyPost)) = [] \<and>
   paragraphs (or_empty (selftext titleOnlyPost)) = [] \<and>
   paginate steadyMeter titleOnlyPost () =
     (Some [MainPage (basePageData titleOnlyPost),
            CommentsPage \<lparr>cp_type = TypeComments,
                           comments = [sampleComment 2, sampleComment 1],
                           cp_title = Some [0x54]\<rparr>], ())"
proof -
  have zh: "paragraphs (or_empty (selftext_zh titleOnlyPost)) = []" by code_simp
  have en: "paragraphs (or_empty (selftext titleOnlyPost)) = []" by code_simp
  have "paginateComments steadyMeter titleOnlyPost () =
     ([CommentsPage \<lparr>cp_type = TypeComments, comments = [sampleComment 2, sampleComment 1],
                      cp_title = Some [0x54]\<rparr>], ())"
    by code_simp
  with empty_body_title_page[OF zh en, of steadyMeter "()"] zh en show ?thesis by simp
qed

text \<open>
  Claim C5 as stated fails: for a post without body and with two comments
  \<open>paginateMainContent\<close> emits a page, and the result of \<open>paginate\<close> is a main page
  followed by a comments page.
\<close>

theorem empty_body_title_page_counterexample:
  "paragraphs (or_empty (selftext_zh titleOnlyPost)) = [] \<and>
   paragraphs (or_empty (selftext titleOnlyPost)) = [] \<and>
   fst (paginateMainContent steadyMeter titleOnlyPost ()) = Some [MainPage (basePageData titleOnlyPost)] \<and>
   map isMainPage (the (fst (paginate steadyMeter titleOnlyPost ()))) = [True, False]"
  by code_simp

section \<open>Faults in comment processing\<close>

lemma paginate_aborts_iff:
  "(fst (paginate M p s) = None) = (fst (paginateMainContent M p s) = None)"
  by (auto simp: paginate_def Let_def split: prod.splits option.splits)

lemma buildQueue_append:
  "buildQueue M (xs @ ys) s =
     (fst (buildQueue M xs s) @ fst (buildQueue M ys (snd (buildQueue M xs s))),
      snd (buildQueue M ys (snd (buildQueue M xs s))))"
  by (induction xs arbitrary: s) (auto split: prod.splits)

text \<open>
  Claim C7. When rendering or measuring the whole body of a comment throws, the comment
  enters the queue as it is, at its place; the comments before and after it are processed
  as they are without the fault, the later ones from the state in which the throw left
  the collaborator; the packer runs over that queue, and the comment is on the emitted
  pages, unsplit. \<open>paginate\<close> as a whole fails only when \<open>paginateMainContent\<close> does.
\<close>

theorem comment_fault_contained:
  assumes before: "buildQueue M before s = (q1, s1)"
    and throws: "M (CommentCard [c]) s1 = (Throws, s2)"
    and after: "buildQueue M after s2 = (q2, s3)"
    and post: "commentList p = Some (before @ c # after)"
  shows "buildQueue M (before @ c # after) s = (q1 @ c # q2, s3) \<and>
         concat (map commentsOf (fst (paginateComments M p s))) = q1 @ c # q2 \<and>
         (fst (paginate M p s0) = None) = (fst (paginateMainContent M p s0) = None)"
proof -
  have ab: "(fst (paginate M p s0) = None) = (fst (paginateMainContent M p s0) = None)"
    by (rule paginate_aborts_iff)
  have q: "buildQueue M (before @ c # after) s = (q1 @ c # q2, s3)"
    using before after throws
    by (simp add: buildQueue_append processComment_def)
  then show ?thesis
    using post ab by (simp add: paginateComments_def or_no_comments_def packPages_concat)
qed

theorem comment_fault_contained_witness:
  "flakyMeter (CommentCard [sampleComment 3]) 3 = (Throws, 4) \<and>
   buildQueue flakyMeter ([sampleComment 4] @ sampleComment 3 # [sampleComment 2, sampleComment 1]) 2 =
     ([sampleComment 4, sampleComment 3, sampleComment 2, sampleComment 1], 6) \<and>
   concat (map commentsOf (fst (paginateComments flakyMeter
       (samplePost\<lparr>commentList := Some [sampleComment 4, sampleComment 3, sampleComment 2, sampleComment 1]\<rparr>) 2))) =
     [sampleComment 4, sampleComment 3, sampleComment 2, sampleComment 1]"
proof -
  have b: "buildQueue flakyMeter [sampleComment 4] 2 = ([sampleComment 4], 3)" by code_simp
  have t: "flakyMeter (CommentCard [sampleComment 3]) 3 = (Throws, 4)" by code_simp
  have a: "buildQueue flakyMeter [sampleComment 2, sampleComment 1] 4 =
            ([sampleComment 2, sampleComment 1], 6)" by code_simp
  have p: "commentList (samplePost\<lparr>commentList := Some [sampleComment 4, sampleComment 3, sampleComment 2, sampleComment 1]\<rparr>)
       = Some ([sampleComment 4] @ sampleComment 3 # [sampleComment 2, sampleComment 1])" by simp
  from comment_fault_contained[OF b t a p, of 0] t show ?thesis by simp
qed

section \<open>Termination and progress\<close>

lemma mainProbe_no_throw:
  "(\<And>mp s. fst (M (MainCard mp) s) \<noteq> Throws) \<Longrightarrow> fst (mainProbe M base zh en k s) \<noteq> Throws"
  by (simp add: mainProbe_def)

lemma mainLoop_returns:
  "(\<And>mp s. fst (M (MainCard mp) s) \<noteq> Throws) \<Longrightarrow>
   \<exists>pages s'. mainLoop M base zh en isFirst s = (Some pages, s')"
proof (induction M base zh en isFirst s rule: mainLoop.induct)
  case (1 M base zh en isFirst s)
  show ?case
  proof (cases "length zh > 0 \<or> length en > 0")
    case False
    then show ?thesis by (subst mainLoop.simps) simp
  next
    case True
    obtain b s1 where bs: "binarySearch (mainProbe M base zh en) MAX_HEIGHT_MAIN_CONTENT 1
             (max (length zh) (length en)) 0 s = (Some b, s1)"
      using binarySearch_returns[of "mainProbe M base zh en"] mainProbe_no_throw[of M] "1.prems"
      by blast
    from "1.IH"[OF True bs[symmetric] refl refl refl] "1.prems"
    obtain rest s2 where "mainLoop M base (drop (forcedMinimum b) zh) (drop (forcedMinimum b) en) False s1
              = (Some rest, s2)" by blast
    with True bs show ?thesis
      by (subst mainLoop.simps) (simp add: Let_def)
  qed
qed

lemma forcedMinimum_pos: "1 \<le> forcedMinimum b"
  by (simp add: forcedMinimum_def)

lemma mainLoop_length:
  "mainLoop M base zh en isFirst s = (Some pages, s') \<Longrightarrow>
   length pages \<le> max (length zh) (length en) \<and> (pages = [] \<longrightarrow> zh = [] \<and> en = [])"
proof (induction M base zh en isFirst s arbitrary: pages s' rule: mainLoop.induct)
  case (1 M base zh en isFirst s)
  show ?case
  proof (cases "length zh > 0 \<or> length en > 0")
    case False
    with "1.prems"(1) show ?thesis by (subst (asm) mainLoop.simps) auto
  next
    case True
    from "1.prems"(1) True obtain b s1 rest s2 where
      bs: "binarySearch (mainProbe M base zh en) MAX_HEIGHT_MAIN_CONTENT 1
             (max (length zh) (length en)) 0 s = (Some b, s1)" and
      rec: "mainLoop M base (drop (forcedMinimum b) zh) (drop (forcedMinimum b) en) False s1
              = (Some rest, s2)" and
      pages: "length pages = Suc (length rest)"
      by (subst (asm) mainLoop.simps)
         (auto split: prod.splits option.splits simp: Let_def)
    define a c k where defs: "a = length zh" "c = length en" "k = forcedMinimum b"
    have "length rest \<le> max (length (drop (forcedMinimum b) zh)) (length (drop (forcedMinimum b) en))"
      using "1.IH"[OF True bs[symmetric] refl refl refl rec] by simp
    then have "length rest \<le> max (a - k) (c - k)" by (simp add: defs)
    moreover have "0 < a \<or> 0 < c" using True by (simp add: defs)
    moreover have "1 \<le> k" by (simp add: defs forcedMinimum_def)
    ultimately have "Suc (length rest) \<le> max a c" by arith
    moreover have "pages \<noteq> []" using pages by auto
    ultimately show ?thesis
      using pages by (simp add: defs)
  qed
qed

lemma mainLoop_length_no_fit:
  "(\<And>mp s h. fst (M (MainCard mp) s) = Height h \<Longrightarrow> \<not> (0 < h \<and> h \<le> MAX_HEIGHT_MAIN_CONTENT)) \<Longrightarrow>
   mainLoop M base zh en isFirst s = (Some pages, s') \<Longrightarrow>
   length pages = max (length zh) (length en)"
proof (induction M base zh en isFirst s arbitrary: pages s' rule: mainLoop.induct)
  case (1 M base zh en isFirst s)
  show ?case
  proof (cases "length zh > 0 \<or> length en > 0")
    case False
    with "1.prems"(2) show ?thesis by (subst (asm) mainLoop.simps) auto
  next
    case True
    from "1.prems"(2) True obtain b s1 rest s2 where
      bs: "binarySearch (mainProbe M base zh en) MAX_HEIGHT_MAIN_CONTENT 1
             (max (length zh) (length en)) 0 s = (Some b, s1)" and
      rec: "mainLoop M base (drop (forcedMinimum b) zh) (drop (forcedMinimum b) en) False s1
              = (Some rest, s2)" and
      pages: "length pages = Suc (length rest)"
      by (subst (asm) mainLoop.simps)
         (auto split: prod.splits option.splits simp: Let_def)
    have "b = 0"
      using binarySearch_no_fit[OF _ bs] "1.prems"(1) by (simp add: mainProbe_def)
    then have fm: "forcedMinimum b = 1" by (simp add: forcedMinimum_def)
    define a c where defs: "a = length zh" "c = length en"
    have "length rest = max (length (drop (forcedMinimum b) zh)) (length (drop (forcedMinimum b) en))"
      using "1.IH"[OF True bs[symmetric] refl refl refl _ rec] "1.prems"(1) by blast
    then have "length rest = max (a - 1) (c - 1)" by (simp add: defs fm)
    moreover have "0 < a \<or> 0 < c" using True by (simp add: defs)
    ultimately have "Suc (length rest) = max a c" by arith
    then show ?thesis
      using pages by (simp add: defs)
  qed
qed

lemma length_le_concat:
  "list_all (\<lambda>x. f x \<noteq> []) xs \<Longrightarrow> length xs \<le> length (concat (map f xs))"
proof (induction xs)
  case Nil
  then show ?case by simp
next
  case (Cons x xs)
  then have "1 \<le> length (f x)" by (cases "f x") auto
  with Cons show ?case by simp
qed

lemma packPages_pages_nonempty:
  "list_all (\<lambda>pg. commentsOf pg \<noteq> []) (fst (packPages M ptitle q s))"
proof (induction M ptitle q s rule: packPages.induct)
  case (1 M ptitle q s)
  show ?case
  proof (cases "q = []")
    case True
    then show ?thesis by (simp add: packPages_Nil)
  next
    case False
    obtain filled q1 s1 where f: "fillPage M ptitle [] q s = (filled, q1, s1)"
      by (cases "fillPage M ptitle [] q s") auto
    obtain pc q2 where g: "forceOne filled q1 = (pc, q2)"
      by (cases "forceOne filled q1") auto
    have ne: "pc \<noteq> []" using forceOne_nonempty[OF g] fillPage_append[OF f] False by auto
    have "list_all (\<lambda>pg. commentsOf pg \<noteq> []) (fst (packPages M ptitle q2 s1))"
      using "1.IH"(1)[OF _ f[symmetric] refl g[symmetric]] ne False by simp
    then show ?thesis
      using ne by (simp add: packPages_step[OF False f g])
  qed
qed

lemma packPages_length: "length (fst (packPages M ptitle q s)) \<le> length q"
  using length_le_concat[OF packPages_pages_nonempty[of M ptitle q s]]
  by (simp add: packPages_concat)

lemma fillPage_no_fit:
  "(\<And>cp s h. fst (M (CommentsPageCard cp) s) = Height h \<Longrightarrow> \<not> (0 < h \<and> h \<le> MAX_HEIGHT_COMMENTS)) \<Longrightarrow>
   fillPage M ptitle pc q s = (filled, q1, s1) \<Longrightarrow> filled = pc \<and> q1 = q"
proof (cases q)
  case Nil
  then show "fillPage M ptitle pc q s = (filled, q1, s1) \<Longrightarrow> filled = pc \<and> q1 = q" by simp
next
  case (Cons c rest)
  assume nf: "\<And>cp s h. fst (M (CommentsPageCard cp) s) = Height h \<Longrightarrow> \<not> (0 < h \<and> h \<le> MAX_HEIGHT_COMMENTS)"
    and f: "fillPage M ptitle pc q s = (filled, q1, s1)"
  let ?d = "CommentsPageCard \<lparr>cp_type = TypeComments, comments = pc @ [c], cp_title = ptitle\<rparr>"
  show "filled = pc \<and> q1 = q"
  proof (cases "M ?d s")
    case (Pair out s')
    show ?thesis
    proof (cases out)
      case (Height h)
      have "fst (M ?d s) = Height h" using Pair Height by simp
      from nf[OF this] have "\<not> (0 < h \<and> h \<le> MAX_HEIGHT_COMMENTS)" .
      with f Cons Pair Height show ?thesis by (auto simp: Let_def)
    next
      case Throws
      with f Cons Pair show ?thesis by (auto simp: Let_def)
    qed
  qed
qed

lemma packPages_length_no_fit:
  "(\<And>cp s h. fst (M (CommentsPageCard cp) s) = Height h \<Longrightarrow> \<not> (0 < h \<and> h \<le> MAX_HEIGHT_COMMENTS)) \<Longrightarrow>
   length (fst (packPages M ptitle q s)) = length q"
proof (induction M ptitle q s rule: packPages.induct)
  case (1 M ptitle q s)
  show ?case
  proof (cases "q = []")
    case True
    then show ?thesis by (simp add: packPages_Nil)
  next
    case False
    obtain filled q1 s1 where f: "fillPage M ptitle [] q s = (filled, q1, s1)"
      by (cases "fillPage M ptitle [] q s") auto
    obtain pc q2 where g: "forceOne filled q1 = (pc, q2)"
      by (cases "forceOne filled q1") auto
    have fq: "filled = [] \<and> q1 = q" using fillPage_no_fit[OF "1.prems" f] by simp
    have ne: "pc \<noteq> []" using forceOne_nonempty[OF g] fillPage_append[OF f] False by auto
    have q2: "length q = Suc (length q2)" using g fq False by (cases q) auto
    have "length (fst (packPages M ptitle q2 s1)) = length q2"
      using "1.IH"(1)[OF _ f[symmetric] refl g[symmetric]] ne False "1.prems" by simp
    then show ?thesis
      using q2 by (simp add: packPages_step[OF False f g])
  qed
qed


lemma paginateComments_length:
  "length (fst (paginateComments M p s))
     \<le> length (fst (buildQueue M (or_no_comments (commentList p)) s))"
  by (auto simp: paginateComments_def Let_def packPages_length split: prod.splits)

lemma paginateComments_length_no_fit:
  "(\<And>cp s h. fst (M (CommentsPageCard cp) s) = Height h \<Longrightarrow> \<not> (0 < h \<and> h \<le> MAX_HEIGHT_COMMENTS)) \<Longrightarrow>
   length (fst (paginateComments M p s))
     = length (fst (buildQueue M (or_no_comments (commentList p)) s))"
  using packPages_length_no_fit[of M]
  by (auto simp: paginateComments_def Let_def split: prod.splits)

lemma paginateMainContent_returns:
  assumes "\<And>mp s. fst (M (MainCard mp) s) \<noteq> Throws"
  shows "\<exists>mainPages s1. paginateMainContent M p s = (Some mainPages, s1) \<and>
           1 \<le> length mainPages \<and>
           length mainPages \<le> max 1 (max (length (paragraphs (or_empty (selftext_zh p))))
                                          (length (paragraphs (or_empty (selftext p)))))"
proof (cases "length (paragraphs (or_empty (selftext_zh p))) = 0 \<and>
              length (paragraphs (or_empty (selftext p))) = 0")
  case True
  then show ?thesis by (simp add: paginateMainContent_def)
next
  case False
  let ?zh = "paragraphs (or_empty (selftext_zh p))" and ?en = "paragraphs (or_empty (selftext p))"
  obtain pages s1 where ml: "mainLoop M (basePageData p) ?zh ?en True s = (Some pages, s1)"
    using mainLoop_returns[of M "basePageData p" ?zh ?en True s] assms by blast
  from mainLoop_length[OF ml] False have "length pages \<le> max (length ?zh) (length ?en)"
    and "pages \<noteq> []" by auto
  then have "1 \<le> length pages \<and> length pages \<le> max 1 (max (length ?zh) (length ?en))"
    by (cases pages) auto
  with ml False show ?thesis by (simp add: paginateMainContent_def Let_def)
qed

lemma paginateMainContent_length_no_fit:
  assumes "\<And>mp s h. fst (M (MainCard mp) s) = Height h \<Longrightarrow> \<not> (0 < h \<and> h \<le> MAX_HEIGHT_MAIN_CONTENT)"
    and "paginateMainContent M p s = (Some mainPages, s1)"
  shows "length mainPages = max 1 (max (length (paragraphs (or_empty (selftext_zh p))))
                                        (length (paragraphs (or_empty (selftext p)))))"
proof (cases "length (paragraphs (or_empty (selftext_zh p))) = 0 \<and>
              length (paragraphs (or_empty (selftext p))) = 0")
  case True
  with assms(2) show ?thesis by (auto simp: paginateMainContent_def)
next
  case False
  let ?zh = "paragraphs (or_empty (selftext_zh p))" and ?en = "paragraphs (or_empty (selftext p))"
  from assms(2) False have ml: "mainLoop M (basePageData p) ?zh ?en True s = (Some mainPages, s1)"
    by (auto simp: paginateMainContent_def Let_def)
  have "length mainPages = max (length ?zh) (length ?en)"
    by (rule mainLoop_length_no_fit[OF _ ml]) (rule assms(1))
  moreover have "0 < length ?zh \<or> 0 < length ?en" using False by simp
  ultimately show ?thesis by (simp only:) arith
qed

text \<open>
  Claim C8. Let the collaborator answer every main-card measurement with a height, any
  height; on the comment cards it may answer anything and throw. Then \<open>paginate\<close>
  returns the pages of \<open>paginateMainContent\<close> followed by those of
  \<open>paginateComments\<close>. Every round of the main loop takes at least one paragraph: there
  are at most as many main pages as the longer track has paragraphs (one page for an empty
  body), and exactly as many when no measurement fits, the chunk size being forced to 1.
  Every round of the packer takes at least one queued comment: there are at most as many
  comments pages as the queue has entries, and exactly as many when no measurement fits,
  one entry being forced onto each page.
\<close>

theorem paginate_terminates:
  assumes "\<forall>mp s. fst (M (MainCard mp) s) \<noteq> Throws"
  shows "\<exists>mainPages s1.
     paginateMainContent M p s = (Some mainPages, s1) \<and>
     paginate M p s = (Some (mainPages @ fst (paginateComments M p s1)),
                       snd (paginateComments M p s1)) \<and>
     1 \<le> length mainPages \<and>
     length mainPages \<le> max 1 (max (length (paragraphs (or_empty (selftext_zh p))))
                                    (length (paragraphs (or_empty (selftext p))))) \<and>
     length (fst (paginateComments M p s1))
       \<le> length (fst (buildQueue M (or_no_comments (commentList p)) s1)) \<and>
     ((\<forall>mp s h. fst (M (MainCard mp) s) = Height h \<longrightarrow> \<not> (0 < h \<and> h \<le> MAX_HEIGHT_MAIN_CONTENT))
        \<longrightarrow> length mainPages = max 1 (max (length (paragraphs (or_empty (selftext_zh p))))
                                         (length (paragraphs (or_empty (selftext p)))))) \<and>
     ((\<forall>cp s h. fst (M (CommentsPageCard cp) s) = Height h \<longrightarrow> \<not> (0 < h \<and> h \<le> MAX_HEIGHT_COMMENTS))
        \<longrightarrow> length (fst (paginateComments M p s1))
              = length (fst (buildQueue M (or_no_comments (commentList p)) s1)))"
proof -
  from paginateMainContent_returns[of M p s] assms obtain mainPages s1 where
    m: "paginateMainContent M p s = (Some mainPages, s1)" and
    len: "1 \<le> length mainPages"
      "length mainPages \<le> max 1 (max (length (paragraphs (or_empty (selftext_zh p))))
                                    (length (paragraphs (or_empty (selftext p)))))"
    by blast
  have pg: "paginate M p s = (Some (mainPages @ fst (paginateComments M p s1)),
                       snd (paginateComments M p s1))"
    using m len(1) by (cases mainPages) (auto simp: paginate_def Let_def split: prod.splits)
  have nf1: "(\<forall>mp s h. fst (M (MainCard mp) s) = Height h \<longrightarrow> \<not> (0 < h \<and> h \<le> MAX_HEIGHT_MAIN_CONTENT))
        \<longrightarrow> length mainPages = max 1 (max (length (paragraphs (or_empty (selftext_zh p))))
                                         (length (paragraphs (or_empty (selftext p)))))"
    using paginateMainContent_length_no_fit[OF _ m] by blast
  have nf2: "(\<forall>cp s h. fst (M (CommentsPageCard cp) s) = Height h \<longrightarrow> \<not> (0 < h \<and> h \<le> MAX_HEIGHT_COMMENTS))
        \<longrightarrow> length (fst (paginateComments M p s1))
              = length (fst (buildQueue M (or_no_comments (commentList p)) s1))"
    using paginateComments_length_no_fit[of M p s1] by blast
  from m pg len paginateComments_length[of M p s1] nf1 nf2 show ?thesis by blast
qed

theorem paginate_terminates_witness:
  "(\<exists>mainPages s1. paginateMainContent tallMeter samplePost () = (Some mainPages, s1) \<and>
      length mainPages = 2 \<and> length (fst (paginateComments tallMeter samplePost s1)) = 4) \<and>
   map isMainPage (the (fst (paginate tallMeter samplePost ()))) =
     [True, True, False, False, False, False]"
proof -
  have h: "\<forall>mp s. fst (tallMeter (MainCard mp) s) \<noteq> Throws"
    by (simp add: tallMeter_def)
  have n1: "\<forall>mp s h. fst (tallMeter (MainCard mp) s) = Height h \<longrightarrow> \<not> (0 < h \<and> h \<le> MAX_HEIGHT_MAIN_CONTENT)"
    by (simp add: tallMeter_def MAX_HEIGHT_MAIN_CONTENT_def)
  have n2: "\<forall>cp s h. fst (tallMeter (CommentsPageCard cp) s) = Height h \<longrightarrow> \<not> (0 < h \<and> h \<le> MAX_HEIGHT_COMMENTS)"
    by (simp add: tallMeter_def MAX_HEIGHT_COMMENTS_def)
  have zh: "length (paragraphs (or_empty (selftext_zh samplePost))) = 1" by code_simp
  have en: "length (paragraphs (or_empty (selftext samplePost))) = 2" by code_simp
  have q: "length (fst (buildQueue tallMeter (or_no_comments (commentList samplePost)) ())) = 4"
    by code_simp
  have run: "map isMainPage (the (fst (paginate tallMeter samplePost ()))) =
     [True, True, False, False, False, False]"
    by code_simp
  from paginate_terminates[OF h, of samplePost "()"] n1 n2 zh en q run
  show ?thesis by auto
qed

section \<open>Wide characters in smartSplit\<close>

lemma classify_chinese: "classify c = chinese \<longleftrightarrow> isChinese c"
  by (simp add: classify_def)

lemma wideAlone_no_wide: "\<not> list_ex isChinese seg \<Longrightarrow> wideAlone seg"
  by (simp add: wideAlone_def)

lemma wideAlone_single: "length seg = 1 \<Longrightarrow> wideAlone seg"
  by (simp add: wideAlone_def)

lemma pushIfNotBlank_ok:
  "list_all wideAlone result \<Longrightarrow> wideAlone current \<Longrightarrow> list_all wideAlone (pushIfNotBlank result current)"
  by (simp add: pushIfNotBlank_def)

lemma smartSplitStep_invariant:
  assumes "splitInvariant st"
  shows "splitInvariant (smartSplitStep st char)"
proof -
  obtain result current lastType where st: "st = (result, current, lastType)"
    by (cases st) auto
  from assms st have res: "list_all wideAlone result"
    and none: "lastType = None \<Longrightarrow> current = []"
    and wide: "lastType = Some chinese \<Longrightarrow> length current = 1 \<and> list_all isChinese current"
    and narrow: "lastType \<noteq> Some chinese \<Longrightarrow> \<not> list_ex isChinese current"
    by (auto simp: splitInvariant_def)
  have cur: "wideAlone current"
    using wide narrow by (cases "lastType = Some chinese") (auto simp: wideAlone_def)
  show ?thesis
  proof (cases "isChinese char")
    case True
    then have ct: "classify char = chinese" by (simp add: classify_chinese)
    show ?thesis
    proof (cases lastType)
      case None
      with none ct True res show ?thesis
        by (simp add: st smartSplitStep_def splitInvariant_def)
    next
      case (Some t)
      show ?thesis
      proof (cases "t = chinese")
        case same: True
        with wide Some obtain c where c: "current = [c]" "isChinese c"
          by (cases current) auto
        with same Some ct True res show ?thesis
          by (simp add: st smartSplitStep_def splitInvariant_def wideAlone_def)
      next
        case False
        with Some ct True res cur show ?thesis
          by (auto simp: st smartSplitStep_def splitInvariant_def pushIfNotBlank_ok)
      qed
    qed
  next
    case False
    then have ct: "classify char \<noteq> chinese" by (simp add: classify_chinese)
    show ?thesis
    proof (cases "lastType = Some chinese")
      case True
      with ct False res cur show ?thesis
        by (auto simp: st smartSplitStep_def splitInvariant_def pushIfNotBlank_ok Let_def)
    next
      case nw: False
      with narrow have "\<not> list_ex isChinese (current @ [char])"
        using False by simp
      with nw ct res none show ?thesis
        by (auto simp: st smartSplitStep_def splitInvariant_def Let_def)
    qed
  qed
qed

lemma smartSplitLoop_ok:
  "splitInvariant st \<Longrightarrow> list_all wideAlone (smartSplitLoop chars st)"
proof (induction chars arbitrary: st)
  case Nil
  obtain result current lastType where st: "st = (result, current, lastType)"
    by (cases st) auto
  with Nil have "list_all wideAlone result" "wideAlone current"
    by (cases "lastType = Some chinese"; auto simp: splitInvariant_def wideAlone_def)+
  then show ?case by (simp add: st pushIfNotBlank_ok)
next
  case (Cons c chars)
  then show ?case by (simp add: smartSplitStep_invariant)
qed

lemma smartSplit_ok: "list_all wideAlone (smartSplit chars)"
proof -
  have "splitInvariant ([], [], None)" by (simp add: splitInvariant_def)
  then have "list_all wideAlone (smartSplitLoop chars ([], [], None))" by (rule smartSplitLoop_ok)
  then show ?thesis by (simp add: smartSplit_def list_all_iff)
qed

text \<open>
  Claim C9. A segment of \<open>smartSplit\<close> that holds a wide character (a code unit from
  U+4E00 to U+9FFF) consists of that character alone.
\<close>

theorem wide_character_alone:
  assumes "seg \<in> set (smartSplit chars)" and "c \<in> set seg" and "isChinese c"
  shows "seg = [c]"
proof -
  from smartSplit_ok[of chars] assms(1) have "wideAlone seg" by (simp add: list_all_iff)
  with assms(2,3) have "length seg = 1" by (auto simp: wideAlone_def list_ex_iff)
  with assms(2) show ?thesis by (cases seg) auto
qed

theorem wide_character_alone_witness:
  "smartSplit mixedText = [[0x68, 0x69, 0x20, 0x79, 0x6F], [0x4e2d], [0x6587], [0x21, 0x61]] \<and>
   isChinese 0x4e2d \<and> [0x4e2d] \<in> set (smartSplit mixedText)"
proof -
  have run: "smartSplit mixedText = [[0x68, 0x69, 0x20, 0x79, 0x6F], [0x4e2d], [0x6587], [0x21, 0x61]]"
    by code_simp
  have w: "isChinese 0x4e2d" by (simp add: isChinese_def)
  have m: "[0x4e2d] \<in> set (smartSplit mixedText)" by (simp add: run)
  have "[0x4e2d] = [0x4e2d :: jschar]"
    by (rule wide_character_alone[OF m _ w]) simp
  with run w m show ?thesis by simp
qed

section \<open>The comments that reach the pages\<close>

lemma preprocessComments_alt:
  "preprocessComments cs = sort_key (\<lambda>c. - ups c) (map cleaned (filter hasBody cs))"
  by (simp add: preprocessComments_def cleaned_def[abs_def] hasBody_def[abs_def])

lemma preprocessComments_mset:
  "mset (preprocessComments cs) = mset (map cleaned (filter hasBody cs))"
  by (simp add: preprocessComments_alt)

lemma preprocessComments_sorted:
  "sorted (map (\<lambda>c. - ups c) (preprocessComments cs))"
  by (simp add: preprocessComments_alt)

lemma preprocessComments_length:
  "length (preprocessComments cs) = length (filter hasBody cs)"
  by (simp add: preprocessComments_alt)

lemma preprocessPostData_comments:
  "preprocessPostData p0 = Some p \<Longrightarrow>
   or_no_comments (commentList p) = preprocessComments (or_no_comments (commentList p0))"
  by (cases "commentList p0")
     (auto simp: preprocessPostData_def or_no_comments_def preprocessComments_def split: if_splits)

lemma buildQueue_no_split:
  "(\<And>c s h. fst (M (CommentCard [c]) s) = Height h \<Longrightarrow> h \<le> MAX_HEIGHT_SINGLE_COMMENT) \<Longrightarrow>
   fst (buildQueue M cs s) = cs"
proof (induction cs arbitrary: s)
  case Nil
  then show ?case by simp
next
  case (Cons c cs)
  have "fst (processComment M c s) = [c]"
  proof (cases "M (CommentCard [c]) s")
    case (Pair out s1)
    show ?thesis
    proof (cases out)
      case (Height h)
      have "fst (M (CommentCard [c]) s) = Height h" using Pair Height by simp
      from Cons.prems[OF this] Pair Height show ?thesis by (simp add: processComment_def)
    next
      case Throws
      with Pair show ?thesis by (simp add: processComment_def)
    qed
  qed
  moreover have "fst (buildQueue M cs (snd (processComment M c s))) = cs"
    using Cons.IH Cons.prems by blast
  ultimately show ?case
    by (cases "processComment M c s"; cases "buildQueue M cs (snd (processComment M c s))") auto
qed

lemma main_pages_no_comments:
  "list_all isMainPage pages \<Longrightarrow> concat (map commentsOf pages) = []"
proof (induction pages)
  case Nil
  then show ?case by simp
next
  case (Cons pg pages)
  then show ?case by (cases pg) auto
qed

lemma paginateComments_concat:
  "concat (map commentsOf (fst (paginateComments M p s)))
     = fst (buildQueue M (or_no_comments (commentList p)) s)"
  by (auto simp: paginateComments_def Let_def packPages_concat split: prod.splits)

lemma buildQueue_at:
  "fst (buildQueue M (before @ c # after) s) =
     fst (buildQueue M before s) @ fst (processComment M c (snd (buildQueue M before s))) @
     fst (buildQueue M after (snd (processComment M c (snd (buildQueue M before s)))))"
  by (simp add: buildQueue_append split: prod.splits)

lemma preprocessComments_stable:
  "filter (\<lambda>c. ups c = k) (preprocessComments cs)
     = filter (\<lambda>c. ups c = k) (map cleaned (filter hasBody cs))"
  using sort_key_stable[of "\<lambda>c. - ups c" "- k" "map cleaned (filter hasBody cs)"]
  by (simp add: preprocessComments_alt)

lemma paginate_queue:
  assumes "paginate M p s = (Some pages, s')"
  shows "\<exists>mainPages s1. paginateMainContent M p s = (Some mainPages, s1) \<and>
           concat (map commentsOf pages) = fst (buildQueue M (or_no_comments (commentList p)) s1)"
proof -
  from paginate_pages[OF assms] obtain mainPages s1 where
    m: "paginateMainContent M p s = (Some mainPages, s1)" and
    pg: "pages = mainPages @ fst (paginateComments M p s1) \<or>
         pages = [MainPage (basePageData p)] \<and> mainPages = [] \<and> fst (paginateComments M p s1) = []"
    by blast
  have mn: "concat (map commentsOf mainPages) = []"
    by (rule main_pages_no_comments[OF paginateMainContent_pages_main[OF m]])
  from pg have "concat (map commentsOf pages) = fst (buildQueue M (or_no_comments (commentList p)) s1)"
  proof
    assume "pages = mainPages @ fst (paginateComments M p s1)"
    with mn show ?thesis by (simp add: paginateComments_concat)
  next
    assume a: "pages = [MainPage (basePageData p)] \<and> mainPages = [] \<and> fst (paginateComments M p s1) = []"
    then show ?thesis using paginateComments_concat[of M p s1] by simp
  qed
  with m show ?thesis by blast
qed

text \<open>
  Claim C3, amended. After \<open>preprocessPostData\<close> the comments of the post are those with
  a body that is not blank, each cleaned, sorted by descending score with the comments of
  equal score in their order of the post, all of them: no cap is applied. The comments
  and chunks on the pages that \<open>paginate\<close> emits, in emission order, are the queue built
  from that list in the state in which \<open>paginateMainContent\<close> left the collaborator: a
  comment measured within the single-comment limit stands in it as it is, a comment
  measured above the limit is replaced by the chunks of \<open>splitComment\<close>, and a comment
  whose measurement or splitting throws stands in it as it is. When no comment is measured
  above the limit the pages carry the list itself.
\<close>

theorem ranked_comments_all_paged:
  assumes "preprocessPostData p0 = Some p" and "paginate M p s = (Some pages, s')"
  shows "mset (or_no_comments (commentList p))
           = mset (map cleaned (filter hasBody (or_no_comments (commentList p0)))) \<and>
         sorted (map (\<lambda>c. - ups c) (or_no_comments (commentList p))) \<and>
         (\<forall>k. filter (\<lambda>c. ups c = k) (or_no_comments (commentList p))
               = filter (\<lambda>c. ups c = k) (map cleaned (filter hasBody (or_no_comments (commentList p0))))) \<and>
         length (or_no_comments (commentList p))
           = length (filter hasBody (or_no_comments (commentList p0))) \<and>
         (\<exists>mainPages s1.
            paginateMainContent M p s = (Some mainPages, s1) \<and>
            concat (map commentsOf pages) = fst (buildQueue M (or_no_comments (commentList p)) s1) \<and>
            (\<forall>before c after sb h s2.
               or_no_comments (commentList p) = before @ c # after \<and>
               sb = snd (buildQueue M before s1) \<and>
               M (CommentCard [c]) sb = (Height h, s2) \<and> h \<le> MAX_HEIGHT_SINGLE_COMMENT \<longrightarrow>
               concat (map commentsOf pages)
                 = fst (buildQueue M before s1) @ c # fst (buildQueue M after s2)) \<and>
            (\<forall>before c after sb h s2 chunks s3.
               or_no_comments (commentList p) = before @ c # after \<and>
               sb = snd (buildQueue M before s1) \<and>
               M (CommentCard [c]) sb = (Height h, s2) \<and> MAX_HEIGHT_SINGLE_COMMENT < h \<and>
               splitComment M c s2 = (Some chunks, s3) \<longrightarrow>
               concat (map commentsOf pages)
                 = fst (buildQueue M before s1) @ chunks @ fst (buildQueue M after s3)) \<and>
            (\<forall>before c after sb s2.
               or_no_comments (commentList p) = before @ c # after \<and>
               sb = snd (buildQueue M before s1) \<and>
               M (CommentCard [c]) sb = (Throws, s2) \<longrightarrow>
               concat (map commentsOf pages)
                 = fst (buildQueue M before s1) @ c # fst (buildQueue M after s2)) \<and>
            (\<forall>before c after sb h s2 s3.
               or_no_comments (commentList p) = before @ c # after \<and>
               sb = snd (buildQueue M before s1) \<and>
               M (CommentCard [c]) sb = (Height h, s2) \<and> MAX_HEIGHT_SINGLE_COMMENT < h \<and>
               splitComment M c s2 = (None, s3) \<longrightarrow>
               concat (map commentsOf pages)
                 = fst (buildQueue M before s1) @ c # fst (buildQueue M after s3))) \<and>
         ((\<forall>c s h. fst (M (CommentCard [c]) s) = Height h \<longrightarrow> h \<le> MAX_HEIGHT_SINGLE_COMMENT)
            \<longrightarrow> concat (map commentsOf pages) = or_no_comments (commentList p))"
proof -
  let ?cs = "or_no_comments (commentList p)"
  let ?queue = "concat (map commentsOf pages)"
  note pc = preprocessPostData_comments[OF assms(1)]
  from paginate_queue[OF assms(2)] obtain mainPages s1 where
    m: "paginateMainContent M p s = (Some mainPages, s1)" and
    q: "?queue = fst (buildQueue M ?cs s1)"
    by blast
  have kept: "?queue = fst (buildQueue M before s1) @ c # fst (buildQueue M after s2)"
    if "?cs = before @ c # after" "sb = snd (buildQueue M before s1)"
       "M (CommentCard [c]) sb = (Height h, s2)" "h \<le> MAX_HEIGHT_SINGLE_COMMENT"
    for before c after sb h s2
    using that q buildQueue_at[of M before c after s1] by (simp add: processComment_def)
  have split: "?queue = fst (buildQueue M before s1) @ chunks @ fst (buildQueue M after s3)"
    if "?cs = before @ c # after" "sb = snd (buildQueue M before s1)"
       "M (CommentCard [c]) sb = (Height h, s2)" "MAX_HEIGHT_SINGLE_COMMENT < h"
       "splitComment M c s2 = (Some chunks, s3)"
    for before c after sb h s2 chunks s3
    using that q buildQueue_at[of M before c after s1] by (simp add: processComment_def)
  have thrown: "?queue = fst (buildQueue M before s1) @ c # fst (buildQueue M after s2)"
    if "?cs = before @ c # after" "sb = snd (buildQueue M before s1)"
       "M (CommentCard [c]) sb = (Throws, s2)"
    for before c after sb s2
    using that q buildQueue_at[of M before c after s1] by (simp add: processComment_def)
  have failed: "?queue = fst (buildQueue M before s1) @ c # fst (buildQueue M after s3)"
    if "?cs = before @ c # after" "sb = snd (buildQueue M before s1)"
       "M (CommentCard [c]) sb = (Height h, s2)" "MAX_HEIGHT_SINGLE_COMMENT < h"
       "splitComment M c s2 = (None, s3)"
    for before c after sb h s2 s3
    using that q buildQueue_at[of M before c after s1] by (simp add: processComment_def)
  have small: "(\<forall>c s h. fst (M (CommentCard [c]) s) = Height h \<longrightarrow> h \<le> MAX_HEIGHT_SINGLE_COMMENT)
            \<longrightarrow> ?queue = ?cs"
    using buildQueue_no_split[of M ?cs s1] q by auto
  have ranked: "mset ?cs = mset (map cleaned (filter hasBody (or_no_comments (commentList p0))))"
    "sorted (map (\<lambda>c. - ups c) ?cs)"
    "\<forall>k. filter (\<lambda>c. ups c = k) ?cs
               = filter (\<lambda>c. ups c = k) (map cleaned (filter hasBody (or_no_comments (commentList p0))))"
    "length ?cs = length (filter hasBody (or_no_comments (commentList p0)))"
    by (simp_all add: pc preprocessComments_mset preprocessComments_sorted
          preprocessComments_stable preprocessComments_length)
  have "\<exists>mainPages s1.
            paginateMainContent M p s = (Some mainPages, s1) \<and>
            ?queue = fst (buildQueue M ?cs s1) \<and>
            (\<forall>before c after sb h s2.
               ?cs = before @ c # after \<and> sb = snd (buildQueue M before s1) \<and>
               M (CommentCard [c]) sb = (Height h, s2) \<and> h \<le> MAX_HEIGHT_SINGLE_COMMENT \<longrightarrow>
               ?queue = fst (buildQueue M before s1) @ c # fst (buildQueue M after s2)) \<and>
            (\<forall>before c after sb h s2 chunks s3.
               ?cs = before @ c # after \<and> sb = snd (buildQueue M before s1) \<and>
               M (CommentCard [c]) sb = (Height h, s2) \<and> MAX_HEIGHT_SINGLE_COMMENT < h \<and>
               splitComment M c s2 = (Some chunks, s3) \<longrightarrow>
               ?queue = fst (buildQueue M before s1) @ chunks @ fst (buildQueue M after s3)) \<and>
            (\<forall>before c after sb s2.
               ?cs = before @ c # after \<and> sb = snd (buildQueue M before s1) \<and>
               M (CommentCard [c]) sb = (Throws, s2) \<longrightarrow>
               ?queue = fst (buildQueue M before s1) @ c # fst (buildQueue M after s2)) \<and>
            (\<forall>before c after sb h s2 s3.
               ?cs = before @ c # after \<and> sb = snd (buildQueue M before s1) \<and>
               M (CommentCard [c]) sb = (Height h, s2) \<and> MAX_HEIGHT_SINGLE_COMMENT < h \<and>
               splitComment M c s2 = (None, s3) \<longrightarrow>
               ?queue = fst (buildQueue M before s1) @ c # fst (buildQueue M after s3))"
  proof (intro exI[of _ mainPages] exI[of _ s1] conjI allI impI)
    show "paginateMainContent M p s = (Some mainPages, s1)" by (rule m)
    show "?queue = fst (buildQueue M ?cs s1)" by (rule q)
  next
    fix before c after sb h s2
    assume "?cs = before @ c # after \<and> sb = snd (buildQueue M before s1) \<and>
               M (CommentCard [c]) sb = (Height h, s2) \<and> h \<le> MAX_HEIGHT_SINGLE_COMMENT"
    then show "?queue = fst (buildQueue M before s1) @ c # fst (buildQueue M after s2)"
      using kept[of before c after sb h s2] by blast
  next
    fix before c after sb h s2 chunks s3
    assume "?cs = before @ c # after \<and> sb = snd (buildQueue M before s1) \<and>
               M (CommentCard [c]) sb = (Height h, s2) \<and> MAX_HEIGHT_SINGLE_COMMENT < h \<and>
               splitComment M c s2 = (Some chunks, s3)"
    then show "?queue = fst (buildQueue M before s1) @ chunks @ fst (buildQueue M after s3)"
      using split[of before c after sb h s2 chunks s3] by blast
  next
    fix before c after sb s2
    assume "?cs = before @ c # after \<and> sb = snd (buildQueue M before s1) \<and>
               M (CommentCard [c]) sb = (Throws, s2)"
    then show "?queue = fst (buildQueue M before s1) @ c # fst (buildQueue M after s2)"
      using thrown[of before c after sb s2] by blast
  next
    fix before c after sb h s2 s3
    assume "?cs = before @ c # after \<and> sb = snd (buildQueue M before s1) \<and>
               M (CommentCard [c]) sb = (Height h, s2) \<and> MAX_HEIGHT_SINGLE_COMMENT < h \<and>
               splitComment M c s2 = (None, s3)"
    then show "?queue = fst (buildQueue M before s1) @ c # fst (buildQueue M after s3)"
      using failed[of before c after sb h s2 s3] by blast
  qed
  then show ?thesis
    using ranked small by (intro conjI) assumption+
qed

theorem ranked_comments_all_paged_witness:
  "or_no_comments (commentList (the (preprocessPostData splitPost)))
     = [cleaned gappedComment, cleaned (sampleComment 3)] \<and>
   paragraphMeter (CommentCard [cleaned gappedComment]) () = (Height 1000, ()) \<and>
   concat (map commentsOf (the (fst (paginate paragraphMeter (the (preprocessPostData splitPost)) ()))))
     = [(cleaned gappedComment)\<lparr>body_zh := Some [], body := Some [0x61], isContinuation := Some False\<rparr>,
        (cleaned gappedComment)\<lparr>body_zh := Some [], body := Some [0x62], isContinuation := Some True\<rparr>,
        cleaned (sampleComment 3)]"
proof -
  let ?p = "the (preprocessPostData splitPost)"
  let ?chunks = "[(cleaned gappedComment)\<lparr>body_zh := Some [], body := Some [0x61], isContinuation := Some False\<rparr>,
        (cleaned gappedComment)\<lparr>body_zh := Some [], body := Some [0x62], isContinuation := Some True\<rparr>]"
  have "preprocessPostData splitPost \<noteq> None" by code_simp
  then have pre: "preprocessPostData splitPost = Some ?p" by auto
  have "fst (paginate paragraphMeter ?p ()) \<noteq> None" by code_simp
  then obtain pages s' where run: "paginate paragraphMeter ?p () = (Some pages, s')"
    by (cases "paginate paragraphMeter ?p ()") auto
  have cs: "or_no_comments (commentList ?p) = [] @ cleaned gappedComment # [cleaned (sampleComment 3)]"
    by code_simp
  have tall: "paragraphMeter (CommentCard [cleaned gappedComment]) () = (Height 1000, ())"
    by code_simp
  have over: "MAX_HEIGHT_SINGLE_COMMENT < 1000" by (simp add: MAX_HEIGHT_SINGLE_COMMENT_def)
  have cut: "splitComment paragraphMeter (cleaned gappedComment) () = (Some ?chunks, ())"
    by code_simp
  have rest: "fst (buildQueue paragraphMeter [cleaned (sampleComment 3)] ()) = [cleaned (sampleComment 3)]"
    by code_simp
  have "\<exists>s1. \<forall>before c after sb h s2 chunks s3.
       or_no_comments (commentList ?p) = before @ c # after \<and>
       sb = snd (buildQueue paragraphMeter before s1) \<and>
       paragraphMeter (CommentCard [c]) sb = (Height h, s2) \<and> MAX_HEIGHT_SINGLE_COMMENT < h \<and>
       splitComment paragraphMeter c s2 = (Some chunks, s3) \<longrightarrow>
       concat (map commentsOf pages)
         = fst (buildQueue paragraphMeter before s1) @ chunks @ fst (buildQueue paragraphMeter after s3)"
    using ranked_comments_all_paged[OF pre run]
    by (elim conjE exE) (rule exI, assumption)
  then obtain s1 where sp: "\<forall>before c after sb h s2 chunks s3.
       or_no_comments (commentList ?p) = before @ c # after \<and>
       sb = snd (buildQueue paragraphMeter before s1) \<and>
       paragraphMeter (CommentCard [c]) sb = (Height h, s2) \<and> MAX_HEIGHT_SINGLE_COMMENT < h \<and>
       splitComment paragraphMeter c s2 = (Some chunks, s3) \<longrightarrow>
       concat (map commentsOf pages)
         = fst (buildQueue paragraphMeter before s1) @ chunks @ fst (buildQueue paragraphMeter after s3)"
    by (rule exE)
  have "or_no_comments (commentList ?p) = [] @ cleaned gappedComment # [cleaned (sampleComment 3)] \<and>
       () = snd (buildQueue paragraphMeter [] s1) \<and>
       paragraphMeter (CommentCard [cleaned gappedComment]) () = (Height 1000, ()) \<and>
       MAX_HEIGHT_SINGLE_COMMENT < 1000 \<and>
       splitComment paragraphMeter (cleaned gappedComment) () = (Some ?chunks, ())"
    using cs tall over cut by simp
  from sp[rule_format, OF this]
  have "concat (map commentsOf pages)
         = fst (buildQueue paragraphMeter [] s1) @ ?chunks @ fst (buildQueue paragraphMeter [cleaned (sampleComment 3)] ())" .
  then have "concat (map commentsOf pages) = ?chunks @ [cleaned (sampleComment 3)]"
    using rest by simp
  with run cs tall show ?thesis by simp
qed

text \<open>
  Claim C3 as stated fails: of a post with thirteen comments all thirteen are on the
  emitted pages, the one with the lowest score last.
\<close>

theorem ranked_comments_all_paged_counterexample:
  "map ups (or_no_comments (commentList crowdedPost)) = [1, 2, 3, 4, 5, 6, 7, 8, 9, 10, 11, 12, 13] \<and>
   map ups (concat (map commentsOf
      (the (fst (paginate steadyMeter (the (preprocessPostData crowdedPost)) ())))))
     = [13, 12, 11, 10, 9, 8, 7, 6, 5, 4, 3, 2, 1]"
  by code_simp

end
